theory Spec2Isabelle
  imports Main "HOL-Library.Product_Lexorder" "HOL-Library.List_Lexorder" "HOL-Library.Char_ord"
begin

section \<open>Data model of \<^verbatim>\<open>dxr/build.py\<close>\<close>

text \<open>
  Exceptions the modelled functions can raise.  A function that may raise returns
  \<open>error + 'a\<close>, with \<open>Inl\<close> for the exception.
\<close>

datatype error = AssertionError | IndexError | UnboundLocalError

text \<open>
  The three payload classes \<^verbatim>\<open>Line\<close>, \<^verbatim>\<open>Region\<close> and \<^verbatim>\<open>Ref\<close>.  None of them defines
  \<^verbatim>\<open>__eq__\<close> or \<^verbatim>\<open>__hash__\<close>, so \<^verbatim>\<open>is\<close>, \<^verbatim>\<open>in\<close> on a set and set removal all compare
  object identity.  A \<^verbatim>\<open>Region\<close> or \<^verbatim>\<open>Ref\<close> object carries the number of its allocation
  (\<^verbatim>\<open>tag = cls(data)\<close> allocates one object per interval), so that HOL equality of
  payloads is identity of objects.  \<^verbatim>\<open>line_boundaries\<close> allocates one \<^verbatim>\<open>Line()\<close> per
  call, which is the single value \<open>Line\<close>.
\<close>

datatype 'm payload = Line | Region nat string | Ref nat 'm

fun sort_order :: "'m payload \<Rightarrow> int" where
  "sort_order Line = 0"
| "sort_order (Region _ _) = 2"
| "sort_order (Ref _ _) = 1"

text \<open>A tag boundary \<^verbatim>\<open>(point, is_start, payload)\<close>.\<close>

type_synonym 'p tag = "int \<times> bool \<times> 'p"

text \<open>
  A file htmlifier, as far as \<^verbatim>\<open>tag_boundaries\<close> reads it: what \<^verbatim>\<open>regions()\<close> and
  \<^verbatim>\<open>refs()\<close> return.  An interval is \<^verbatim>\<open>(start, end, data)\<close>; the code tests \<^verbatim>\<open>start\<close> and
  \<^verbatim>\<open>end\<close> against \<^verbatim>\<open>None\<close>, so both are optional integers.
\<close>

type_synonym 'd interval = "int option \<times> int option \<times> 'd"

record 'm htmlifier =
  regions :: "string interval list"
  refs :: "'m interval list"

section \<open>\<^verbatim>\<open>tag_boundaries\<close>\<close>

text \<open>
  The inner loop \<^verbatim>\<open>for start, end, data in intervals\<close> with its three assertions.
  The counter \<open>n\<close> is the number of payload objects allocated so far.
\<close>

fun interval_boundaries ::
  "(nat \<Rightarrow> 'd \<Rightarrow> 'p) \<Rightarrow> nat \<Rightarrow> 'd interval list \<Rightarrow> error + ('p tag list \<times> nat)" where
  "interval_boundaries cls n [] = Inr ([], n)"
| "interval_boundaries cls n ((start, end, data) # rest) =
     (case start of
        None \<Rightarrow> Inl AssertionError
      | Some s \<Rightarrow>
         (case end of
            None \<Rightarrow> Inl AssertionError
          | Some e \<Rightarrow>
             if \<not> e > 0 then Inl AssertionError
             else (case interval_boundaries cls (Suc n) rest of
                     Inl err \<Rightarrow> Inl err
                   | Inr (ts, n') \<Rightarrow>
                       Inr ((s, True, cls n data) # (e, False, cls n data) # ts, n'))))"

fun tag_boundaries_from :: "nat \<Rightarrow> 'm htmlifier list \<Rightarrow> error + 'm payload tag list" where
  "tag_boundaries_from n [] = Inr []"
| "tag_boundaries_from n (h # hs) =
     (case interval_boundaries Region n (regions h) of
        Inl err \<Rightarrow> Inl err
      | Inr (ts1, n1) \<Rightarrow>
         (case interval_boundaries Ref n1 (refs h) of
            Inl err \<Rightarrow> Inl err
          | Inr (ts2, n2) \<Rightarrow>
             (case tag_boundaries_from n2 hs of
                Inl err \<Rightarrow> Inl err
              | Inr ts \<Rightarrow> Inr (ts1 @ ts2 @ ts))))"

definition tag_boundaries :: "'m htmlifier list \<Rightarrow> error + 'm payload tag list" where
  "tag_boundaries htmlifiers = tag_boundaries_from 0 htmlifiers"

section \<open>\<^verbatim>\<open>line_boundaries\<close>\<close>

text \<open>
  \<^verbatim>\<open>text.splitlines(True)\<close> of the Python library: a line ends after \<^verbatim>\<open>\r\n\<close>, after a
  single \<^verbatim>\<open>\r\<close> or \<^verbatim>\<open>\n\<close>, or after any further one-character separator; the
  terminator stays on the line, and no line is empty.  The further separators are the
  parameter \<open>brk\<close>: none for a byte string, the remaining Unicode ones for a Unicode
  string.  \<open>cur\<close> is the line read so far.
\<close>

abbreviation CR :: char where "CR \<equiv> CHR 0x0D"
abbreviation LF :: char where "LF \<equiv> CHR 0x0A"

fun splitlines_from :: "(char \<Rightarrow> bool) \<Rightarrow> string \<Rightarrow> string \<Rightarrow> string list" where
  "splitlines_from brk cur [] = (if cur = [] then [] else [cur])"
| "splitlines_from brk cur (c # cs) =
     (if c = CR then
        (case cs of
           [] \<Rightarrow> [cur @ [c]]
         | c' # cs' \<Rightarrow>
             if c' = LF then (cur @ [c, c']) # splitlines_from brk [] cs'
             else (cur @ [c]) # splitlines_from brk [] cs)
      else if c = LF \<or> brk c then (cur @ [c]) # splitlines_from brk [] cs
      else splitlines_from brk (cur @ [c]) cs)"

definition splitlines :: "(char \<Rightarrow> bool) \<Rightarrow> string \<Rightarrow> string list" where
  "splitlines brk text = splitlines_from brk [] text"

text \<open>The loop of \<^verbatim>\<open>line_boundaries\<close>; every boundary carries the one \<^verbatim>\<open>marker\<close>.\<close>

fun line_boundaries_from :: "int \<Rightarrow> string list \<Rightarrow> 'm payload tag list" where
  "line_boundaries_from up_to [] = []"
| "line_boundaries_from up_to (line # lines) =
     (up_to, True, Line) # (up_to + int (length line), False, Line)
       # line_boundaries_from (up_to + int (length line)) lines"

definition line_boundaries :: "(char \<Rightarrow> bool) \<Rightarrow> string \<Rightarrow> 'm payload tag list" where
  "line_boundaries brk text = line_boundaries_from 0 (splitlines brk text)"

section \<open>\<^verbatim>\<open>nesting_order\<close>\<close>

text \<open>
  The sort key.  Python compares the tuples lexicographically, with \<^verbatim>\<open>False < True\<close>;
  that is the order of \<open>int \<times> bool \<times> int\<close>.
\<close>

fun nesting_order :: "'m payload tag \<Rightarrow> int \<times> bool \<times> int" where
  "nesting_order (point, is_start, payload) =
     (point, is_start, if is_start then sort_order payload else - sort_order payload)"

section \<open>Rendering: \<^verbatim>\<open>cgi.escape\<close>, \<^verbatim>\<open>strip\<close>, openers and closers\<close>

text \<open>
  \<^verbatim>\<open>cgi.escape(s, quote)\<close> replaces \<^verbatim>\<open>&\<close> first, then \<^verbatim>\<open><\<close> and \<^verbatim>\<open>>\<close>, and the double
  quote when \<^verbatim>\<open>quote\<close> is true.  No replacement text contains a character that a later
  replacement looks for, so the result is the character-wise substitution.
\<close>

abbreviation DQ :: char where "DQ \<equiv> CHR 0x22"

definition escape_char :: "bool \<Rightarrow> char \<Rightarrow> string" where
  "escape_char quote c =
     (if c = CHR ''&'' then ''&amp;''
      else if c = CHR ''<'' then ''&lt;''
      else if c = CHR ''>'' then ''&gt;''
      else if quote \<and> c = DQ then ''&quot;''
      else [c])"

definition cgi_escape :: "bool \<Rightarrow> string \<Rightarrow> string" where
  "cgi_escape quote s = concat (map (escape_char quote) s)"

text \<open>\<^verbatim>\<open>s.strip(chars)\<close>: the characters of \<open>chars\<close> are removed from both ends.\<close>

definition strip :: "string \<Rightarrow> string \<Rightarrow> string" where
  "strip chars s =
     rev (dropWhile (\<lambda>c. c \<in> set chars) (rev (dropWhile (\<lambda>c. c \<in> set chars) s)))"

text \<open>
  \<^verbatim>\<open>opener\<close> and \<^verbatim>\<open>closer\<close> of \<^verbatim>\<open>Region\<close> and \<^verbatim>\<open>Ref\<close>.  \<^verbatim>\<open>json.dumps\<close> is the parameter
  \<open>dumps\<close>.  \<^verbatim>\<open>Line\<close> has neither method and \<^verbatim>\<open>html_lines\<close> never asks it for one.
\<close>

fun opener :: "('m \<Rightarrow> string) \<Rightarrow> 'm payload \<Rightarrow> string" where
  "opener dumps (Region _ cls) = ''<span class='' @ [DQ] @ cgi_escape True cls @ [DQ] @ ''>''"
| "opener dumps (Ref _ menu) = ''<a data-menu='' @ [DQ] @ cgi_escape True (dumps menu) @ [DQ] @ ''>''"
| "opener dumps Line = []"

fun closer :: "'m payload \<Rightarrow> string" where
  "closer (Region _ _) = ''</span>''"
| "closer (Ref _ _) = ''</a>''"
| "closer Line = []"

section \<open>\<^verbatim>\<open>html_lines\<close>\<close>

text \<open>
  The loop over the tags, with the local variables \<^verbatim>\<open>up_to\<close>, \<^verbatim>\<open>segments\<close> and
  \<^verbatim>\<open>line_ends_at\<close> as arguments; the result is the list of the strings yielded.
\<close>

fun html_lines_loop ::
  "('m \<Rightarrow> string) \<Rightarrow> (int \<Rightarrow> int \<Rightarrow> string) \<Rightarrow> int \<Rightarrow> string list \<Rightarrow> int option
     \<Rightarrow> 'm payload tag list \<Rightarrow> string list" where
  "html_lines_loop dumps slicer up_to segments line_ends_at [] =
     (if segments \<noteq> [] then [concat segments] else [])"
| "html_lines_loop dumps slicer up_to segments line_ends_at ((point, is_start, payload) # tags) =
     (let segments1 = segments @ [cgi_escape False (strip [CR, LF] (slicer up_to point))];
          flush = (case line_ends_at of None \<Rightarrow> False | Some l \<Rightarrow> is_start \<or> point > l);
          yielded = (if flush \<and> segments1 \<noteq> [] then [concat segments1] else []);
          segments2 = (if flush then [] else segments1);
          line_ends_at2 = (if flush then None else line_ends_at);
          line_ends_at3 = (if payload = Line \<and> \<not> is_start then Some point else line_ends_at2);
          segments3 = (if payload = Line then segments2
                       else segments2 @ [if is_start then opener dumps payload else closer payload])
      in yielded @ html_lines_loop dumps slicer point segments3 line_ends_at3 tags)"

definition html_lines ::
  "('m \<Rightarrow> string) \<Rightarrow> 'm payload tag list \<Rightarrow> (int \<Rightarrow> int \<Rightarrow> string) \<Rightarrow> string list" where
  "html_lines dumps tags slicer = html_lines_loop dumps slicer 0 [] None tags"

section \<open>\<^verbatim>\<open>balanced_tags\<close>\<close>

text \<open>
  A generator that raises after some yields is modelled by its whole result: the list of
  what it yields, or the exception.  \<open>yield x r\<close> puts \<open>x\<close> in front of the rest \<open>r\<close>.
\<close>

definition yield :: "'a \<Rightarrow> error + 'a list \<Rightarrow> error + 'a list" where
  "yield x r = (case r of Inl err \<Rightarrow> Inl err | Inr xs \<Rightarrow> Inr (x # xs))"

definition yield_all :: "'a list \<Rightarrow> error + 'a list \<Rightarrow> error + 'a list" where
  "yield_all ys r = (case r of Inl err \<Rightarrow> Inl err | Inr xs \<Rightarrow> Inr (ys @ xs))"

text \<open>
  \<^verbatim>\<open>opens\<close> and \<^verbatim>\<open>closes\<close> are stacks: the head of the HOL list is the last element
  of the Python list, where \<^verbatim>\<open>append\<close>, \<^verbatim>\<open>pop\<close> and \<^verbatim>\<open>[-1]\<close> work.

  The first \<^verbatim>\<open>while\<close> loop: \<^verbatim>\<open>opens[-1]\<close> raises \<^verbatim>\<open>IndexError\<close> on the empty list.  It
  returns the closers yielded and the two stacks.
\<close>

fun close_intermediates ::
  "int \<Rightarrow> 'p \<Rightarrow> 'p list \<Rightarrow> 'p list \<Rightarrow> error + ('p tag list \<times> 'p list \<times> 'p list)" where
  "close_intermediates point payload [] closes = Inl IndexError"
| "close_intermediates point payload (intermediate_payload # opens) closes =
     (if intermediate_payload \<noteq> payload then
        (case close_intermediates point payload opens (intermediate_payload # closes) of
           Inl err \<Rightarrow> Inl err
         | Inr (out, opens', closes') \<Rightarrow>
             Inr ((point, False, intermediate_payload) # out, opens', closes'))
      else Inr ([], intermediate_payload # opens, closes))"

text \<open>The second \<^verbatim>\<open>while\<close> loop: reopen what was closed on the way.\<close>

fun reopen :: "int \<Rightarrow> 'p list \<Rightarrow> 'p list \<Rightarrow> 'p tag list \<times> 'p list" where
  "reopen point opens [] = ([], opens)"
| "reopen point opens (intermediate_payload # closes) =
     (case reopen point (intermediate_payload # opens) closes of
        (out, opens') \<Rightarrow> ((point, True, intermediate_payload) # out, opens'))"

fun balance_loop :: "'p list \<Rightarrow> 'p list \<Rightarrow> 'p tag list \<Rightarrow> error + 'p tag list" where
  "balance_loop opens closes [] = Inr []"
| "balance_loop opens closes ((point, is_start, payload) # tags) =
     (if is_start then
        yield (point, is_start, payload) (balance_loop (payload # opens) closes tags)
      else
        (case close_intermediates point payload opens closes of
           Inl err \<Rightarrow> Inl err
         | Inr (out1, opens1, closes1) \<Rightarrow>
            (case opens1 of
               [] \<Rightarrow> Inl IndexError
             | _ # opens2 \<Rightarrow>
                (case reopen point opens2 closes1 of
                   (out2, opens3) \<Rightarrow>
                     yield_all (out1 @ [(point, False, payload)] @ out2)
                       (balance_loop opens3 [] tags)))))"

definition balanced_tags_with_empties :: "'p tag list \<Rightarrow> error + 'p tag list" where
  "balanced_tags_with_empties tags = balance_loop [] [] tags"

text \<open>
  \<^verbatim>\<open>without_empty_tags\<close>.  \<^verbatim>\<open>buffer\<close> is kept with its last element at the head;
  \<^verbatim>\<open>buffer[-1]\<close> raises \<^verbatim>\<open>IndexError\<close> on the empty buffer.  The test against the last
  element ignores whether that element is an opener.  What is left in the buffer at the
  end of the input is never yielded.
\<close>

fun without_empty_loop :: "'p tag list \<Rightarrow> int \<Rightarrow> 'p tag list \<Rightarrow> error + 'p tag list" where
  "without_empty_loop buffer depth [] = Inr []"
| "without_empty_loop buffer depth ((point, is_start, payload) # tags) =
     (if is_start then
        without_empty_loop ((point, is_start, payload) # buffer) (depth + 1) tags
      else
        (case buffer of
           [] \<Rightarrow> Inl IndexError
         | (top_point, _, top_payload) # rest \<Rightarrow>
            (let buffer' = (if top_payload = payload \<and> top_point = point then rest
                            else (point, is_start, payload) # buffer);
                 depth' = depth - 1
             in if depth' = 0 then yield_all (rev buffer') (without_empty_loop [] depth' tags)
                else without_empty_loop buffer' depth' tags)))"

definition without_empty_tags :: "'p tag list \<Rightarrow> error + 'p tag list" where
  "without_empty_tags tags = without_empty_loop [] 0 tags"

definition balanced_tags :: "'p tag list \<Rightarrow> error + 'p tag list" where
  "balanced_tags tags =
     (case balanced_tags_with_empties tags of
        Inl err \<Rightarrow> Inl err
      | Inr balanced \<Rightarrow> without_empty_tags balanced)"

section \<open>\<^verbatim>\<open>remove_overlapping_refs\<close>\<close>

fun is_Ref :: "'m payload \<Rightarrow> bool" where
  "is_Ref (Ref _ _) = True"
| "is_Ref _ = False"

fun non_overlapping_loop ::
  "'m payload set \<Rightarrow> 'm payload option \<Rightarrow> 'm payload tag list \<Rightarrow> error + bool list" where
  "non_overlapping_loop blacklist open_ref [] = Inr []"
| "non_overlapping_loop blacklist open_ref ((point, is_start, payload) # tags) =
     (if is_Ref payload then
        (if payload \<in> blacklist then
           yield False (non_overlapping_loop (blacklist - {payload}) open_ref tags)
         else if open_ref = None then
           (if \<not> is_start then Inl AssertionError
            else yield True (non_overlapping_loop blacklist (Some payload) tags))
         else if open_ref = Some payload then
           yield True (non_overlapping_loop blacklist None tags)
         else
           yield False (non_overlapping_loop (insert payload blacklist) open_ref tags))
      else yield True (non_overlapping_loop blacklist open_ref tags))"

definition non_overlapping_refs :: "'m payload tag list \<Rightarrow> error + bool list" where
  "non_overlapping_refs tags = non_overlapping_loop {} None tags"

text \<open>\<^verbatim>\<open>itertools.compress\<close>.\<close>

definition compress :: "'a list \<Rightarrow> bool list \<Rightarrow> 'a list" where
  "compress data selectors = map fst (filter snd (zip data selectors))"

text \<open>
  \<^verbatim>\<open>remove_overlapping_refs\<close> overwrites \<^verbatim>\<open>tags\<close> in place (the write index never passes
  the read index) and then cuts the list after the last index written, \<^verbatim>\<open>del tags[i + 1:]\<close>.
  When the loop body never ran, \<^verbatim>\<open>i\<close> is unbound there.  The result is the new content of
  \<^verbatim>\<open>tags\<close>.
\<close>

definition remove_overlapping_refs :: "'m payload tag list \<Rightarrow> error + 'm payload tag list" where
  "remove_overlapping_refs tags =
     (case non_overlapping_refs tags of
        Inl err \<Rightarrow> Inl err
      | Inr selectors \<Rightarrow>
          (let kept = compress tags selectors
           in if kept = [] then Inl UnboundLocalError else Inr kept))"

section \<open>\<^verbatim>\<open>build_lines\<close>\<close>

text \<open>\<^verbatim>\<open>text[start:end]\<close>: negative indices count from the end, and both are clamped.\<close>

definition py_slice :: "'a list \<Rightarrow> int \<Rightarrow> int \<Rightarrow> 'a list" where
  "py_slice xs start end =
     (let n = int (length xs);
          s = (if start < 0 then max 0 (start + n) else min start n);
          e = (if end < 0 then max 0 (end + n) else min end n)
      in take (nat (e - s)) (drop (nat s) xs))"

text \<open>
  \<^verbatim>\<open>list.sort\<close> is stable, as \<open>sort_key\<close> is.  The UTF-8 decoder with
  \<^verbatim>\<open>errors='replace'\<close> is the parameter \<open>decoder\<close>.  \<^verbatim>\<open>build_lines\<close> returns the generator
  of \<^verbatim>\<open>html_lines\<close>, which pulls the balanced tags as it goes; the model gives the lines
  yielded when no stage raises, and the exception otherwise.
\<close>

definition build_lines ::
  "(char \<Rightarrow> bool) \<Rightarrow> (string \<Rightarrow> string) \<Rightarrow> ('m \<Rightarrow> string) \<Rightarrow> string \<Rightarrow> 'm htmlifier list
     \<Rightarrow> error + string list" where
  "build_lines brk decoder dumps text htmlifiers =
     (case tag_boundaries htmlifiers of
        Inl err \<Rightarrow> Inl err
      | Inr tags0 \<Rightarrow>
         (case remove_overlapping_refs (sort_key nesting_order (tags0 @ line_boundaries brk text)) of
            Inl err \<Rightarrow> Inl err
          | Inr tags \<Rightarrow>
             (case balanced_tags tags of
                Inl err \<Rightarrow> Inl err
              | Inr balanced \<Rightarrow>
                  Inr (html_lines dumps balanced
                         (\<lambda>start end. decoder (py_slice text start end))))))"

section \<open>\<^verbatim>\<open>_sliced_range_bounds\<close> and \<^verbatim>\<open>run_html_workers\<close>\<close>

text \<open>
  The \<^verbatim>\<open>while\<close> loop of \<^verbatim>\<open>_sliced_range_bounds\<close>.  Its condition \<^verbatim>\<open>this_min == a or
  this_max < b\<close> holds on entry (\<^verbatim>\<open>this_min\<close> is \<^verbatim>\<open>a\<close>), so the body runs once and the
  condition is tested after it.  The loop need not end (take \<^verbatim>\<open>b < a\<close>), hence the
  result is optional: \<open>None\<close> when it runs forever.
\<close>

partial_function (option) sliced_loop ::
  "int \<Rightarrow> int \<Rightarrow> int \<Rightarrow> int \<Rightarrow> (int \<times> int) list \<Rightarrow> (int \<times> int) list option" where
  "sliced_loop a b slice_size this_min yielded =
     (let this_max = min b (this_min + slice_size - 1);
          yielded' = yielded @ [(this_min, this_max)];
          this_min' = this_max + 1
      in if this_min' = a \<or> this_max < b then sliced_loop a b slice_size this_min' yielded'
         else Some yielded')"

declare sliced_loop.simps [code]

definition sliced_range_bounds :: "int \<Rightarrow> int \<Rightarrow> int \<Rightarrow> (int \<times> int) list option" where
  "sliced_range_bounds a b slice_size = sliced_loop a b slice_size a []"

text \<open>
  The tasks \<^verbatim>\<open>run_html_workers\<close> submits to the pool: the list \<^verbatim>\<open>futures\<close>, one
  \<^verbatim>\<open>_build_html_for_file_ids(tree, start, end)\<close> per pair.
\<close>

datatype task = Build_html_for_file_ids int int

definition run_html_workers :: "int \<Rightarrow> task list option" where
  "run_html_workers max_file_id =
     map_option (map (\<lambda>(start, end). Build_html_for_file_ids start end))
       (sliced_range_bounds 1 max_file_id 500)"

section \<open>\<^verbatim>\<open>index_files\<close>\<close>

text \<open>
  A source tree: a folder lists its files (name and content, in the order \<^verbatim>\<open>os.walk\<close>
  reports them) and its subfolders.  Paths are POSIX paths (\<^verbatim>\<open>os.sep\<close> is \<^verbatim>\<open>/\<close>, so
  \<^verbatim>\<open>replace(os.sep, '/')\<close> changes nothing).
\<close>

datatype fs = Dir "(string \<times> string) list" "(string \<times> fs) list"

text \<open>\<^verbatim>\<open>os.path.join\<close> of two components.\<close>

definition path_join :: "string \<Rightarrow> string \<Rightarrow> string" where
  "path_join a b =
     (if b \<noteq> [] \<and> hd b = CHR ''/'' then b
      else if a = [] \<or> last a = CHR ''/'' then a @ b
      else a @ ''/'' @ b)"

text \<open>
  \<^verbatim>\<open>_unignored_folders\<close>.  \<^verbatim>\<open>fnmatchcase\<close> of the Python library is the parameter
  \<open>fnmatchcase\<close>.
\<close>

definition unignored_folders ::
  "(string \<Rightarrow> string \<Rightarrow> bool) \<Rightarrow> string list \<Rightarrow> string \<Rightarrow> string list \<Rightarrow> string list
     \<Rightarrow> string list" where
  "unignored_folders fnmatchcase folders source_path ignore_patterns ignore_paths =
     filter (\<lambda>folder.
        \<not> list_ex (\<lambda>p. fnmatchcase folder p) ignore_patterns \<and>
        \<not> list_ex (\<lambda>p. fnmatchcase (''/'' @ path_join source_path folder @ ''/'') p) ignore_paths)
       folders"

text \<open>
  The loop \<^verbatim>\<open>for f in files\<close> of \<^verbatim>\<open>index_files\<close>: the \<^verbatim>\<open>(path, data)\<close> pairs inserted, in
  order.  \<^verbatim>\<open>dxr.mime.is_text\<close> is the parameter \<open>is_text\<close>.
\<close>

fun index_folder_files ::
  "(string \<Rightarrow> string \<Rightarrow> bool) \<Rightarrow> (string \<Rightarrow> string \<Rightarrow> bool) \<Rightarrow> string list \<Rightarrow> string list
     \<Rightarrow> string \<Rightarrow> string \<Rightarrow> (string \<times> string) list \<Rightarrow> (string \<times> string) list" where
  "index_folder_files fnmatchcase is_text ignore_patterns ignore_paths root rel_path [] = []"
| "index_folder_files fnmatchcase is_text ignore_patterns ignore_paths root rel_path ((f, data) # files) =
     (let rest = index_folder_files fnmatchcase is_text ignore_patterns ignore_paths root rel_path files
      in if list_ex (\<lambda>e. fnmatchcase f e) ignore_patterns then rest
         else
           (let file_path = path_join root f;
                path = path_join rel_path f
            in if list_ex (\<lambda>e. fnmatchcase (''/'' @ path) e) ignore_paths then rest
               else if \<not> is_text file_path data then rest
               else (path, data) # rest))"

lemma size_subfolder:
  "map_of folders folder = Some t \<Longrightarrow> size t < Suc (size_list (size_prod (\<lambda>_. 0) size) folders)"
  by (induction folders) (auto split: if_splits)

text \<open>
  \<^verbatim>\<open>os.walk(..., topdown=True)\<close> with the body of the loop of \<^verbatim>\<open>index_files\<close>: the files
  of the folder are indexed, \<^verbatim>\<open>folders[:]\<close> is replaced by the unignored folders and
  sorted, and the walk then descends into exactly those, in that order.
\<close>

function index_walk ::
  "(string \<Rightarrow> string \<Rightarrow> bool) \<Rightarrow> (string \<Rightarrow> string \<Rightarrow> bool) \<Rightarrow> string list \<Rightarrow> string list
     \<Rightarrow> string \<Rightarrow> string \<Rightarrow> fs \<Rightarrow> (string \<times> string) list" where
  "index_walk fnmatchcase is_text ignore_patterns ignore_paths root rel_path (Dir files folders) =
     index_folder_files fnmatchcase is_text ignore_patterns ignore_paths root rel_path files
     @ concat (map (\<lambda>folder.
         (case map_of folders folder of
            None \<Rightarrow> []
          | Some t \<Rightarrow>
              index_walk fnmatchcase is_text ignore_patterns ignore_paths
                (path_join root folder) (path_join rel_path folder) t))
        (sort (unignored_folders fnmatchcase (map fst folders) rel_path ignore_patterns ignore_paths)))"
  by pat_completeness auto
termination
  by (relation "measure (\<lambda>(_, _, _, _, _, _, t). size t)") (auto dest: size_subfolder)

text \<open>
  The two tables after \<^verbatim>\<open>index_files\<close> on freshly created tables: row ids count from 1
  in insertion order, and the trigram row of a file takes \<^verbatim>\<open>cur.lastrowid\<close>.
  \<^verbatim>\<open>dxr.mime.icon\<close> is the parameter \<open>icon\<close>.
\<close>

record db =
  files_table :: "(nat \<times> string \<times> string) list"
  trg_index :: "(nat \<times> string) list"

definition index_files ::
  "(string \<Rightarrow> string \<Rightarrow> bool) \<Rightarrow> (string \<Rightarrow> string \<Rightarrow> bool) \<Rightarrow> (string \<Rightarrow> string)
     \<Rightarrow> string list \<Rightarrow> string list \<Rightarrow> string \<Rightarrow> fs \<Rightarrow> db" where
  "index_files fnmatchcase is_text icon ignore_patterns ignore_paths source_folder tree =
     (let inserted = index_walk fnmatchcase is_text ignore_patterns ignore_paths source_folder [] tree
      in \<lparr>files_table = map (\<lambda>(i, (path, data)). (Suc i, path, icon path)) (enumerate 0 inserted),
          trg_index = map (\<lambda>(i, (path, data)). (Suc i, data)) (enumerate 0 inserted)\<rparr>)"

section \<open>Specification-side definitions\<close>

subsection \<open>Intervals that \<^verbatim>\<open>tag_boundaries\<close> accepts\<close>

text \<open>
  An interval passes the three assertions when neither end is \<^verbatim>\<open>None\<close> and its end is
  positive.  \<open>emitted\<close> lists the boundaries of such intervals, \<open>n\<close> counting the
  payload objects, and \<open>expected_boundaries\<close> does so for a list of htmlifiers.
\<close>

definition accepted :: "'d interval \<Rightarrow> bool" where
  "accepted iv = (case iv of (Some s, Some e, _) \<Rightarrow> e > 0 | _ \<Rightarrow> False)"

fun emitted :: "(nat \<Rightarrow> 'd \<Rightarrow> 'p) \<Rightarrow> nat \<Rightarrow> 'd interval list \<Rightarrow> 'p tag list" where
  "emitted cls n [] = []"
| "emitted cls n ((start, end, data) # rest) =
     (case (start, end) of
        (Some s, Some e) \<Rightarrow> [(s, True, cls n data), (e, False, cls n data)]
      | _ \<Rightarrow> []) @ emitted cls (Suc n) rest"

fun expected_boundaries :: "nat \<Rightarrow> 'm htmlifier list \<Rightarrow> 'm payload tag list" where
  "expected_boundaries n [] = []"
| "expected_boundaries n (h # hs) =
     emitted Region n (regions h) @ emitted Ref (n + length (regions h)) (refs h)
     @ expected_boundaries (n + length (regions h) + length (refs h)) hs"

definition all_accepted :: "'m htmlifier list \<Rightarrow> bool" where
  "all_accepted hs = (\<forall>h \<in> set hs. list_all accepted (regions h) \<and> list_all accepted (refs h))"

subsection \<open>Lines and their terminators\<close>

text \<open>
  A line separator is \<^verbatim>\<open>\r\<close>, \<^verbatim>\<open>\n\<close> or one of the further separators.  A terminated
  line is a run of other characters followed by \<^verbatim>\<open>\r\n\<close> or by one separator; an
  unterminated line is a non-empty run of other characters.  In \<open>lines_terminated\<close> every
  line is terminated, but the last one need not be.
\<close>

definition is_separator :: "(char \<Rightarrow> bool) \<Rightarrow> char \<Rightarrow> bool" where
  "is_separator brk c = (c = CR \<or> c = LF \<or> brk c)"

definition terminated_line :: "(char \<Rightarrow> bool) \<Rightarrow> string \<Rightarrow> bool" where
  "terminated_line brk line =
     (\<exists>body. list_all (\<lambda>c. \<not> is_separator brk c) body
        \<and> (line = body @ [CR, LF] \<or> (\<exists>c. is_separator brk c \<and> line = body @ [c])))"

definition unterminated_line :: "(char \<Rightarrow> bool) \<Rightarrow> string \<Rightarrow> bool" where
  "unterminated_line brk line = (line \<noteq> [] \<and> list_all (\<lambda>c. \<not> is_separator brk c) line)"

fun lines_terminated :: "(char \<Rightarrow> bool) \<Rightarrow> string list \<Rightarrow> bool" where
  "lines_terminated brk [] = True"
| "lines_terminated brk [line] = (terminated_line brk line \<or> unterminated_line brk line)"
| "lines_terminated brk (line # lines) = (terminated_line brk line \<and> lines_terminated brk lines)"

text \<open>
  \<^verbatim>\<open>\r\n\<close> is one terminator: in \<open>crlf_joined\<close> no line that ends with \<^verbatim>\<open>\r\<close> is followed
  by a line that starts with \<^verbatim>\<open>\n\<close>.
\<close>

fun crlf_joined :: "string list \<Rightarrow> bool" where
  "crlf_joined (line # next_line # lines) =
     (\<not> (line \<noteq> [] \<and> last line = CR \<and> next_line \<noteq> [] \<and> hd next_line = LF)
      \<and> crlf_joined (next_line # lines))"
| "crlf_joined lines = True"

subsection \<open>Consecutive slices of a range\<close>

text \<open>
  \<open>slices_of s b m rs\<close>: the inclusive ranges \<open>rs\<close> follow each other from \<open>m\<close> to \<open>b\<close>,
  each of size \<open>s\<close> but the last, which is not empty and no larger.
\<close>

fun slices_of :: "int \<Rightarrow> int \<Rightarrow> int \<Rightarrow> (int \<times> int) list \<Rightarrow> bool" where
  "slices_of s b m [] = False"
| "slices_of s b m [(lo, hi)] = (lo = m \<and> hi = b \<and> lo \<le> hi \<and> hi - lo + 1 \<le> s)"
| "slices_of s b m ((lo, hi) # r # rs) =
     (lo = m \<and> hi - lo + 1 = s \<and> hi < b \<and> slices_of s b (hi + 1) (r # rs))"

subsection \<open>The files of a source tree\<close>

text \<open>
  \<open>all_files\<close> lists every file of a tree with the names of the folders on the way to it,
  its bare name and its relative path.  \<open>unignored_origin\<close> says of such a file that it
  has the given path and that no ignore rule applies to it or to a folder above it.
\<close>

fun all_files :: "string list \<Rightarrow> string \<Rightarrow> fs \<Rightarrow> (string list \<times> string \<times> string) list" where
  "all_files dirs rel_path (Dir files folders) =
     map (\<lambda>(f, data). (dirs, f, path_join rel_path f)) files
     @ concat (map (\<lambda>(folder, t). all_files (dirs @ [folder]) (path_join rel_path folder) t) folders)"

definition unignored_origin ::
  "(string \<Rightarrow> string \<Rightarrow> bool) \<Rightarrow> string list \<Rightarrow> string list \<Rightarrow> string
     \<Rightarrow> (string list \<times> string \<times> string) \<Rightarrow> bool" where
  "unignored_origin fnmatchcase ignore_patterns ignore_paths path origin =
     (case origin of (dirs, f, p) \<Rightarrow>
        p = path
        \<and> \<not> list_ex (\<lambda>e. fnmatchcase f e) ignore_patterns
        \<and> \<not> list_ex (\<lambda>e. fnmatchcase (''/'' @ path) e) ignore_paths
        \<and> list_all (\<lambda>d. \<not> list_ex (\<lambda>e. fnmatchcase d e) ignore_patterns) dirs)"

subsection \<open>Segments of \<^verbatim>\<open>html_lines\<close>\<close>

text \<open>
  \<open>rstrip\<close> follows the words of the specification: only trailing characters of
  \<open>chars\<close> are removed (Python's \<^verbatim>\<open>s.rstrip(chars)\<close>).
\<close>

definition rstrip :: "string \<Rightarrow> string \<Rightarrow> string" where
  "rstrip chars s = rev (dropWhile (\<lambda>c. c \<in> set chars) (rev s))"

text \<open>
  What one boundary contributes to the output of \<^verbatim>\<open>html_lines\<close> when \<^verbatim>\<open>up_to\<close> has the
  given value: the escaped slice up to its offset, stripped, and its own markup.
\<close>

definition rendered_boundary ::
  "('m \<Rightarrow> string) \<Rightarrow> (int \<Rightarrow> int \<Rightarrow> string) \<Rightarrow> int \<Rightarrow> 'm payload tag \<Rightarrow> string" where
  "rendered_boundary dumps slicer up_to tag =
     (case tag of (point, is_start, payload) \<Rightarrow>
        cgi_escape False (strip [CR, LF] (slicer up_to point))
        @ (if payload = Line then []
           else if is_start then opener dumps payload else closer payload))"

subsection \<open>Balanced tag streams\<close>

text \<open>
  The input condition of the balancer.  \<open>proper opens tags\<close>: with the payloads of
  \<open>opens\<close> open, every open boundary of \<open>tags\<close> is for a payload that is not open, every
  close boundary is for one that is, and nothing is open at the end.  So the boundaries of
  one payload object alternate, an open first and a close last.
\<close>

fun proper :: "'p list \<Rightarrow> 'p tag list \<Rightarrow> bool" where
  "proper opens [] = (opens = [])"
| "proper opens ((point, is_start, payload) # tags) =
     (if is_start then payload \<notin> set opens \<and> proper (payload # opens) tags
      else payload \<in> set opens \<and> proper (remove1 payload opens) tags)"

text \<open>The numbers of open and of close boundaries of a stream.\<close>

definition opens_in :: "'p tag list \<Rightarrow> nat" where
  "opens_in tags = length (filter (\<lambda>t. fst (snd t)) tags)"

definition closes_in :: "'p tag list \<Rightarrow> nat" where
  "closes_in tags = length (filter (\<lambda>t. \<not> fst (snd t)) tags)"

text \<open>
  \<open>nested stack tags\<close>: reading \<open>tags\<close> with the unmatched opens on \<open>stack\<close> (offset and
  payload, the most recent first), every close boundary is for the payload of the most
  recent unmatched open, that open is at another offset, and no open is left unmatched.
\<close>

fun nested :: "(int \<times> 'p) list \<Rightarrow> 'p tag list \<Rightarrow> bool" where
  "nested stack [] = (stack = [])"
| "nested stack ((point, is_start, payload) # tags) =
     (if is_start then nested ((point, payload) # stack) tags
      else (case stack of
              [] \<Rightarrow> False
            | (opened_at, top_payload) # rest \<Rightarrow>
                top_payload = payload \<and> opened_at \<noteq> point \<and> nested rest tags))"

text \<open>
  The same reading as a function that returns the unmatched opens left: \<open>run strict\<close>
  also refuses an open boundary for a payload that is already open and, when \<open>strict\<close>,
  a close boundary not after the offset of its open.  It serves the proofs about the two
  passes of \<^verbatim>\<open>balanced_tags\<close>.
\<close>

fun run :: "bool \<Rightarrow> (int \<times> 'p) list \<Rightarrow> 'p tag list \<Rightarrow> (int \<times> 'p) list option" where
  "run strict stack [] = Some stack"
| "run strict stack ((point, is_start, payload) # tags) =
     (if is_start then
        (if payload \<in> snd ` set stack then None else run strict ((point, payload) # stack) tags)
      else (case stack of
              [] \<Rightarrow> None
            | (opened_at, top_payload) # rest \<Rightarrow>
                if top_payload = payload \<and> (strict \<longrightarrow> opened_at < point)
                then run strict rest tags else None))"

subsection \<open>Anchors that do not overlap\<close>

text \<open>The boundaries of a stream that carry a \<^verbatim>\<open>Ref\<close>.\<close>

definition ref_boundaries :: "'m payload tag list \<Rightarrow> 'm payload tag list" where
  "ref_boundaries tags = filter (\<lambda>t. is_Ref (snd (snd t))) tags"

text \<open>
  The filter in the words of the specification: every boundary that is not an anchor's
  is kept; an anchor's open is kept when no kept anchor is open, and an anchor's close is
  kept when it closes the kept anchor that is open.
\<close>

fun keep_first :: "'m payload option \<Rightarrow> 'm payload tag list \<Rightarrow> 'm payload tag list" where
  "keep_first kept_open [] = []"
| "keep_first kept_open ((point, is_start, payload) # tags) =
     (if \<not> is_Ref payload then (point, is_start, payload) # keep_first kept_open tags
      else if is_start then
        (if kept_open = None then (point, is_start, payload) # keep_first (Some payload) tags
         else keep_first kept_open tags)
      else
        (if kept_open = Some payload then (point, is_start, payload) # keep_first None tags
         else keep_first kept_open tags))"

text \<open>
  \<open>flat_refs kept_open tags\<close>: the anchor boundaries of \<open>tags\<close> are an open, its close,
  the next open, its close and so on, so that no two anchors overlap.
\<close>

fun flat_refs :: "'m payload option \<Rightarrow> 'm payload tag list \<Rightarrow> bool" where
  "flat_refs kept_open [] = (kept_open = None)"
| "flat_refs kept_open ((point, is_start, payload) # tags) =
     (if \<not> is_Ref payload then flat_refs kept_open tags
      else if is_start then kept_open = None \<and> flat_refs (Some payload) tags
      else kept_open = Some payload \<and> flat_refs None tags)"

section \<open>Assertions of \<^verbatim>\<open>tag_boundaries\<close>\<close>

lemma interval_boundaries_accepted:
  "list_all accepted ivs \<Longrightarrow> interval_boundaries cls n ivs = Inr (emitted cls n ivs, n + length ivs)"
  by (induction ivs arbitrary: n) (auto simp: accepted_def split: option.splits)

lemma interval_boundaries_rejected:
  "\<not> list_all accepted ivs \<Longrightarrow> interval_boundaries cls n ivs = Inl AssertionError"
  by (induction ivs arbitrary: n) (auto simp: accepted_def split: option.splits sum.splits)

lemma tag_boundaries_from_accepted:
  "all_accepted hs \<Longrightarrow> tag_boundaries_from n hs = Inr (expected_boundaries n hs)"
  by (induction hs arbitrary: n) (auto simp: all_accepted_def interval_boundaries_accepted add.assoc)

lemma tag_boundaries_from_rejected:
  "\<not> all_accepted hs \<Longrightarrow> tag_boundaries_from n hs = Inl AssertionError"
proof (induction hs arbitrary: n)
  case Nil
  then show ?case by (simp add: all_accepted_def)
next
  case (Cons h hs)
  show ?case
  proof (cases "list_all accepted (regions h)")
    case False
    then show ?thesis by (simp add: interval_boundaries_rejected)
  next
    case r: True
    show ?thesis
    proof (cases "list_all accepted (refs h)")
      case False
      then show ?thesis using r by (simp add: interval_boundaries_accepted interval_boundaries_rejected)
    next
      case True
      with r Cons.prems have "\<not> all_accepted hs" by (simp add: all_accepted_def)
      then show ?thesis using r True
        by (simp add: interval_boundaries_accepted Cons.IH)
    qed
  qed
qed

text \<open>
  Claim C3, as the code has it.  \<^verbatim>\<open>tag_boundaries\<close> raises \<^verbatim>\<open>AssertionError\<close> exactly when
  some interval of some htmlifier has \<^verbatim>\<open>start\<close> or \<^verbatim>\<open>end\<close> equal to \<^verbatim>\<open>None\<close> or has
  \<^verbatim>\<open>end <= 0\<close>; otherwise it returns, for every interval in turn, the open boundary at
  \<^verbatim>\<open>start\<close> and the close boundary at \<^verbatim>\<open>end\<close>, both carrying the interval's own payload
  object.  Every well-formed interval (\<^verbatim>\<open>0 <= start < end\<close>) is accepted, and the
  zero-length interval \<^verbatim>\<open>[0, 0)\<close> is rejected.
\<close>

theorem tag_boundaries_assertion:
  "(if all_accepted hs then tag_boundaries hs = Inr (expected_boundaries 0 hs)
    else tag_boundaries hs = Inl AssertionError)
   \<and> (0 \<le> s \<and> s < e \<longrightarrow> accepted (Some s, Some e, d))
   \<and> \<not> accepted (Some 0, Some 0, d)"
  by (simp add: tag_boundaries_def tag_boundaries_from_accepted tag_boundaries_from_rejected accepted_def)

theorem tag_boundaries_assertion_witness:
  "all_accepted [\<lparr>regions = [(Some 0, Some 2, ''k'')], refs = [(Some 1, Some 4, ''m'')]\<rparr>]
   \<and> tag_boundaries [\<lparr>regions = [(Some 0, Some 2, ''k'')], refs = [(Some 1, Some 4, ''m'')]\<rparr>]
       = Inr [(0, True, Region 0 ''k''), (2, False, Region 0 ''k''),
              (1, True, Ref 1 ''m''), (4, False, Ref 1 ''m'')]
   \<and> \<not> all_accepted [\<lparr>regions = [(Some 0, Some 0, ''k'')], refs = ([] :: string interval list)\<rparr>]
   \<and> tag_boundaries [\<lparr>regions = [(Some 0, Some 0, ''k'')], refs = ([] :: string interval list)\<rparr>]
       = Inl AssertionError"
  using tag_boundaries_assertion [of "[\<lparr>regions = [(Some 0, Some 2, ''k'')], refs = [(Some 1, Some 4, ''m'')]\<rparr>]" 0 2 "''k''"]
    tag_boundaries_assertion [of "[\<lparr>regions = [(Some 0, Some 0, ''k'')], refs = ([] :: string interval list)\<rparr>]" 0 2 "''k''"]
  by (simp add: all_accepted_def accepted_def)

text \<open>
  Claim C3 as stated fails: a zero-length interval \<^verbatim>\<open>[3, 3)\<close> and a reversed interval
  \<^verbatim>\<open>[5, 2)\<close> have \<^verbatim>\<open>end <= start\<close>, and \<^verbatim>\<open>tag_boundaries\<close> emits their boundaries without
  raising.
\<close>

theorem tag_boundaries_counterexample:
  "(3::int) \<le> 3 \<and> (2::int) \<le> 5
   \<and> tag_boundaries [\<lparr>regions = [(Some 3, Some 3, ''k'')], refs = [(Some 5, Some 2, ''m'')]\<rparr>]
       = Inr [(3, True, Region 0 ''k''), (3, False, Region 0 ''k''),
              (5, True, Ref 1 ''m''), (2, False, Ref 1 ''m'')]"
  by (simp add: tag_boundaries_def)

text \<open>
  Such an interval is fatal all the same, but later and with another exception: its close
  boundary sorts before its open boundary, and the balancer raises \<^verbatim>\<open>IndexError\<close> when it
  looks for the open.
\<close>

lemma build_lines_zero_length_interval:
  "build_lines (\<lambda>_. False) (\<lambda>s. s) (\<lambda>m. m) ''ab''
     [\<lparr>regions = [(Some 1, Some 1, ''k'')], refs = []\<rparr>] = Inl IndexError"
  by (simp add: build_lines_def tag_boundaries_def line_boundaries_def splitlines_def sort_key_def
      remove_overlapping_refs_def non_overlapping_refs_def compress_def yield_def yield_all_def
      balanced_tags_def balanced_tags_with_empties_def)

section \<open>The sort key \<^verbatim>\<open>nesting_order\<close>\<close>

text \<open>
  Claim C5, as the code has it.  The key of \<^verbatim>\<open>nesting_order\<close> compares any two boundaries
  (the comparison is total and transitive; boundaries with equal keys tie).  Its primary
  component is the offset; at one offset every close boundary sorts before every open
  boundary; among the open boundaries of one offset the class rank decides (\<^verbatim>\<open>Line\<close> 0,
  \<^verbatim>\<open>Ref\<close> 1, \<^verbatim>\<open>Region\<close> 2), and among the close boundaries the negated rank does.  So at
  one offset a \<^verbatim>\<open>Line\<close> sorts first among the opens and last among the closes: it is
  outermost both when it opens and when it closes.
\<close>

theorem nesting_order_key:
  "(nesting_order a \<le> nesting_order b \<or> nesting_order b \<le> nesting_order a)
   \<and> (nesting_order a \<le> nesting_order b \<and> nesting_order b \<le> nesting_order c
        \<longrightarrow> nesting_order a \<le> nesting_order c)
   \<and> (x < y \<longrightarrow> nesting_order (x, s, p) < nesting_order (y, s', q))
   \<and> nesting_order (x, False, p) < nesting_order (x, True, q)
   \<and> (nesting_order (x, True, p) \<le> nesting_order (x, True, q) \<longleftrightarrow> sort_order p \<le> sort_order q)
   \<and> (nesting_order (x, False, p) \<le> nesting_order (x, False, q) \<longleftrightarrow> sort_order q \<le> sort_order p)
   \<and> sort_order (Line :: 'm payload) = 0 \<and> sort_order (Ref i (m :: 'm)) = 1
   \<and> sort_order (Region j k :: 'm payload) = 2
   \<and> nesting_order (x, True, Line) \<le> nesting_order (x, True, p)
   \<and> nesting_order (x, False, p) \<le> nesting_order (x, False, Line)"
proof -
  have tot: "nesting_order a \<le> nesting_order b \<or> nesting_order b \<le> nesting_order a"
    by (rule linear)
  have tr: "nesting_order a \<le> nesting_order b \<and> nesting_order b \<le> nesting_order c
        \<longrightarrow> nesting_order a \<le> nesting_order c"
    by (blast intro: order_trans)
  have rank: "0 \<le> sort_order p" by (cases p) simp_all
  show ?thesis using tot tr rank by simp
qed

theorem nesting_order_key_witness:
  "(1::int) < 2 \<and> nesting_order (1, True, Region 0 ''k'') < nesting_order (2, False, (Line :: string payload))
   \<and> nesting_order (2, False, (Line :: string payload)) \<le> nesting_order (2, True, Line)
   \<and> nesting_order (2, True, Line) \<le> nesting_order (2, True, Ref 1 ''m'')
   \<and> nesting_order (1, True, Region 0 ''k'') \<le> nesting_order (2, True, Ref 1 ''m'')"
  using nesting_order_key [of "(1, True, Region 0 ''k'')" "(2, False, Line)" "(2, True, Ref 1 ''m'')" 1 2 True "Region 0 ''k''" False "Line" 1 "''m''" 0 "''k''"]
  by simp

text \<open>
  Claim C5 as stated says that a \<^verbatim>\<open>Line\<close> sorts innermost when it closes, that is, before
  the other close boundaries of its offset.  The close of a \<^verbatim>\<open>Region\<close> sorts strictly
  before the close of the \<^verbatim>\<open>Line\<close> at the same offset.
\<close>

theorem nesting_order_counterexample:
  "nesting_order (5, False, Region 0 ''k'') < nesting_order (5, False, (Line :: string payload))
   \<and> \<not> nesting_order (5, False, (Line :: string payload)) \<le> nesting_order (5, False, Region 0 ''k'')"
  by simp

section \<open>Offsets of \<^verbatim>\<open>line_boundaries\<close>\<close>

lemma concat_splitlines_from: "concat (splitlines_from brk cur cs) = cur @ cs"
  by (induction brk cur cs rule: splitlines_from.induct) (auto split: list.splits)

lemma splitlines_from_nonempty: "[] \<notin> set (splitlines_from brk cur cs)"
  by (induction brk cur cs rule: splitlines_from.induct) (auto split: list.splits)

lemma lines_terminated_Cons:
  "terminated_line brk l \<Longrightarrow> lines_terminated brk ls \<Longrightarrow> lines_terminated brk (l # ls)"
  by (cases ls) simp_all

lemma splitlines_from_terminated:
  "list_all (\<lambda>c. \<not> is_separator brk c) cur \<Longrightarrow> lines_terminated brk (splitlines_from brk cur cs)"
proof (induction brk cur cs rule: splitlines_from.induct)
  case (1 brk cur)
  then show ?case by (simp add: unterminated_line_def)
next
  case (2 brk cur c cs)
  have nil: "list_all (\<lambda>c. \<not> is_separator brk c) []" by simp
  show ?case
  proof (cases "c = CR")
    case cr: True
    have t1: "terminated_line brk (cur @ [c])"
      unfolding terminated_line_def using "2.prems" cr
      by (intro exI [of _ cur]) (auto simp: is_separator_def)
    show ?thesis
    proof (cases cs)
      case Nil
      with cr t1 show ?thesis by simp
    next
      case (Cons c' cs')
      show ?thesis
      proof (cases "c' = LF")
        case True
        have "terminated_line brk (cur @ [c, c'])"
          unfolding terminated_line_def using "2.prems" cr True
          by (intro exI [of _ cur]) auto
        moreover have "lines_terminated brk (splitlines_from brk [] cs')"
          using "2.IH"(1) [OF cr Cons True nil] .
        ultimately show ?thesis using cr Cons True by (simp add: lines_terminated_Cons)
      next
        case False
        have "lines_terminated brk (splitlines_from brk [] cs)"
          using "2.IH"(2) [OF cr Cons False nil] .
        with t1 show ?thesis using cr Cons False by (simp add: lines_terminated_Cons)
      qed
    qed
  next
    case ncr: False
    show ?thesis
    proof (cases "c = LF \<or> brk c")
      case True
      have "terminated_line brk (cur @ [c])"
        unfolding terminated_line_def using "2.prems" True
        by (intro exI [of _ cur]) (auto simp: is_separator_def)
      moreover have "lines_terminated brk (splitlines_from brk [] cs)"
        using "2.IH"(3) [OF ncr True nil] .
      ultimately show ?thesis using ncr True by (simp add: lines_terminated_Cons)
    next
      case False
      then have "list_all (\<lambda>c. \<not> is_separator brk c) (cur @ [c])"
        using "2.prems" ncr by (simp add: is_separator_def)
      from "2.IH"(4) [OF ncr False this] show ?thesis using ncr False by simp
    qed
  qed
qed

lemma splitlines_terminated: "lines_terminated brk (splitlines brk text)"
  by (simp add: splitlines_def splitlines_from_terminated)

lemma splitlines_from_first:
  assumes "splitlines_from brk cur cs = l # ls"
  shows "l \<noteq> [] \<and> hd l = hd (cur @ cs)"
proof -
  have ne: "l \<noteq> []" using splitlines_from_nonempty [of brk cur cs] assms by auto
  have "concat (l # ls) = cur @ cs" using concat_splitlines_from [of brk cur cs] assms by simp
  then have "hd (l @ concat ls) = hd (cur @ cs)" by simp
  with ne show ?thesis by simp
qed

lemma crlf_joined_Cons:
  assumes "crlf_joined ls" and "last l \<noteq> CR \<or> (\<forall>n ns. ls = n # ns \<longrightarrow> hd n \<noteq> LF)"
  shows "crlf_joined (l # ls)"
  using assms by (cases ls) auto

lemma splitlines_from_crlf_joined: "crlf_joined (splitlines_from brk cur cs)"
proof (induction brk cur cs rule: splitlines_from.induct)
  case (1 brk cur)
  then show ?case by simp
next
  case (2 brk cur c cs)
  show ?case
  proof (cases "c = CR")
    case cr: True
    show ?thesis
    proof (cases cs)
      case Nil
      with cr show ?thesis by simp
    next
      case (Cons c' cs')
      show ?thesis
      proof (cases "c' = LF")
        case True
        have "crlf_joined (splitlines_from brk [] cs')" using "2.IH"(1) [OF cr Cons True] .
        moreover have "last (cur @ [c, c']) \<noteq> CR" using True by simp
        ultimately have "crlf_joined ((cur @ [c, c']) # splitlines_from brk [] cs')"
          by (intro crlf_joined_Cons) auto
        then show ?thesis using cr Cons True by simp
      next
        case False
        have j: "crlf_joined (splitlines_from brk [] cs)" using "2.IH"(2) [OF cr Cons False] .
        have "\<forall>n ns. splitlines_from brk [] cs = n # ns \<longrightarrow> hd n \<noteq> LF"
        proof (intro allI impI)
          fix n ns assume "splitlines_from brk [] cs = n # ns"
          from splitlines_from_first [OF this] Cons False show "hd n \<noteq> LF" by simp
        qed
        with j have "crlf_joined ((cur @ [c]) # splitlines_from brk [] cs)"
          by (intro crlf_joined_Cons) auto
        then show ?thesis using cr Cons False by simp
      qed
    qed
  next
    case ncr: False
    show ?thesis
    proof (cases "c = LF \<or> brk c")
      case True
      have "crlf_joined (splitlines_from brk [] cs)" using "2.IH"(3) [OF ncr True] .
      moreover have "last (cur @ [c]) \<noteq> CR" using ncr by simp
      ultimately have "crlf_joined ((cur @ [c]) # splitlines_from brk [] cs)"
        by (intro crlf_joined_Cons) auto
      then show ?thesis using ncr True by simp
    next
      case False
      from "2.IH"(4) [OF ncr False] show ?thesis using ncr False by simp
    qed
  qed
qed

lemma splitlines_crlf_joined: "crlf_joined (splitlines brk text)"
  by (simp add: splitlines_def splitlines_from_crlf_joined)

lemma splitlines_from_body:
  "list_all (\<lambda>c. \<not> is_separator brk c) body \<Longrightarrow>
     splitlines_from brk cur (body @ cs) = splitlines_from brk (cur @ body) cs"
  by (induction body arbitrary: cur) (auto simp: is_separator_def)

lemma splitlines_from_separator:
  "is_separator brk c \<Longrightarrow> \<not> (c = CR \<and> rest \<noteq> [] \<and> hd rest = LF) \<Longrightarrow>
     splitlines_from brk cur (c # rest) = (cur @ [c]) # splitlines_from brk [] rest"
  by (cases rest) (auto simp: is_separator_def)

lemma splitlines_from_unterminated:
  "list_all (\<lambda>c. \<not> is_separator brk c) body \<Longrightarrow> body \<noteq> [] \<Longrightarrow>
     splitlines_from brk [] body = [body]"
  using splitlines_from_body [of brk body "[]" "[]"] by simp

text \<open>
  These properties leave no choice: a list of non-empty lines, each terminated except
  possibly the last, with no \<^verbatim>\<open>\r\n\<close> divided between two lines, is the split of its
  concatenation.
\<close>

lemma splitlines_unique:
  "[] \<notin> set ls \<Longrightarrow> lines_terminated brk ls \<Longrightarrow> crlf_joined ls \<Longrightarrow>
     splitlines brk (concat ls) = ls"
proof (induction ls)
  case Nil
  show ?case by (simp add: splitlines_def)
next
  case (Cons l ls)
  have ih: "ls \<noteq> [] \<Longrightarrow> splitlines_from brk [] (concat ls) = ls"
  proof -
    assume ne: "ls \<noteq> []"
    then obtain n ns where ls: "ls = n # ns" by (cases ls) auto
    from Cons.prems ls have "[] \<notin> set ls" "lines_terminated brk ls" "crlf_joined ls" by auto
    from Cons.IH [OF this] show ?thesis by (simp add: splitlines_def)
  qed
  have rest: "splitlines_from brk [] (concat ls) = ls"
    using ih by (cases "ls = []") auto
  show ?case
  proof (cases "terminated_line brk l")
    case True
    then obtain body where body: "list_all (\<lambda>c. \<not> is_separator brk c) body"
      and l: "l = body @ [CR, LF] \<or> (\<exists>c. is_separator brk c \<and> l = body @ [c])"
      unfolding terminated_line_def by blast
    from l show ?thesis
    proof
      assume l2: "l = body @ [CR, LF]"
      have "splitlines_from brk [] (body @ CR # LF # concat ls)
          = splitlines_from brk body (CR # LF # concat ls)"
        using splitlines_from_body [OF body, of "[]"] by simp
      then show ?thesis using l2 rest by (simp add: splitlines_def)
    next
      assume "\<exists>c. is_separator brk c \<and> l = body @ [c]"
      then obtain c where c: "is_separator brk c" and l1: "l = body @ [c]" by blast
      have nj: "\<not> (c = CR \<and> concat ls \<noteq> [] \<and> hd (concat ls) = LF)"
      proof (cases ls)
        case Nil
        then show ?thesis by simp
      next
        case (Cons n ns)
        with Cons.prems(1) have n: "n \<noteq> []" by auto
        with Cons have "hd (concat ls) = hd n" by simp
        moreover from Cons.prems(3) Cons l1 n have "\<not> (c = CR \<and> hd n = LF)" by auto
        ultimately show ?thesis by simp
      qed
      have "splitlines_from brk [] (body @ c # concat ls) = splitlines_from brk body (c # concat ls)"
        using splitlines_from_body [OF body, of "[]"] by simp
      also have "\<dots> = (body @ [c]) # splitlines_from brk [] (concat ls)"
        by (rule splitlines_from_separator [OF c nj])
      finally show ?thesis using l1 rest by (simp add: splitlines_def)
    qed
  next
    case False
    with Cons.prems(2) have ls: "ls = []" and u: "unterminated_line brk l"
      by (cases ls; simp)+
    then show ?thesis
      using splitlines_from_unterminated [of brk l]
      by (simp add: splitlines_def unterminated_line_def)
  qed
qed

lemma line_boundaries_from_closed:
  "line_boundaries_from u ls =
     concat (map (\<lambda>i. [(u + int (length (concat (take i ls))), True, Line),
                        (u + int (length (concat (take (Suc i) ls))), False, Line)])
                 [0..<length ls])"
proof (induction ls arbitrary: u)
  case Nil
  then show ?case by simp
next
  case (Cons l ls)
  have "[0..<length (l # ls)] = 0 # map Suc [0..<length ls]"
    by (simp add: upt_conv_Cons map_Suc_upt del: upt_Suc)
  then show ?case
    by (simp add: Cons.IH o_def add.assoc)
qed

text \<open>
  Claim C6.  With \<open>ls\<close> the lines of the text, terminators kept, \<^verbatim>\<open>line_boundaries\<close>
  emits for the \<open>i\<close>-th line one \<^verbatim>\<open>Line\<close> open boundary at the total length of the lines
  before it and one \<^verbatim>\<open>Line\<close> close boundary at the total length of the lines up to and
  including it, and nothing else.  The lines concatenate to the text, so the last close
  is at the length of the text; no line is empty; every line ends with its terminator
  (\<^verbatim>\<open>\r\n\<close> or a single separator) and holds no other separator, the last line alone
  possibly having no terminator; \<^verbatim>\<open>\r\n\<close> is never divided between two lines, so that no
  line closes between a \<^verbatim>\<open>\r\<close> and the \<^verbatim>\<open>\n\<close> after it; the empty text has no
  boundaries.
\<close>

theorem line_boundaries_offsets:
  "line_boundaries brk text =
     concat (map (\<lambda>i. [(int (length (concat (take i (splitlines brk text)))), True, Line),
                        (int (length (concat (take (Suc i) (splitlines brk text)))), False, Line)])
                 [0..<length (splitlines brk text)])
   \<and> concat (splitlines brk text) = text
   \<and> [] \<notin> set (splitlines brk text)
   \<and> lines_terminated brk (splitlines brk text)
   \<and> crlf_joined (splitlines brk text)
   \<and> line_boundaries brk [] = []"
  by (simp add: line_boundaries_def line_boundaries_from_closed splitlines_terminated
      splitlines_crlf_joined)
    (simp add: splitlines_def concat_splitlines_from splitlines_from_nonempty)

theorem line_boundaries_offsets_witness:
  "splitlines (\<lambda>_. False) [CHR ''a'', CR, LF, CHR ''b''] = [[CHR ''a'', CR, LF], [CHR ''b'']]
   \<and> (line_boundaries (\<lambda>_. False) [CHR ''a'', CR, LF, CHR ''b''] :: string payload tag list)
       = [(0, True, Line), (3, False, Line), (3, True, Line), (4, False, Line)]
   \<and> crlf_joined [[CHR ''a'', CR, LF], [CHR ''b'']]
   \<and> \<not> crlf_joined [[CHR ''a'', CR], [LF], [CHR ''b'']]"
  using line_boundaries_offsets [of "\<lambda>_. False" "[CHR ''a'', CR, LF, CHR ''b'']"]
  by (simp add: splitlines_def line_boundaries_def)

section \<open>The shared \<^verbatim>\<open>Line\<close> marker\<close>

lemma line_boundaries_from_payloads:
  "map (\<lambda>t. snd (snd t)) (line_boundaries_from u ls) = replicate (2 * length ls) Line"
  by (induction ls arbitrary: u) simp_all

lemma line_boundaries_from_starts:
  "map (\<lambda>t. fst (snd t)) (line_boundaries_from u ls) = concat (replicate (length ls) [True, False])"
  by (induction ls arbitrary: u) simp_all

lemma line_boundaries_from_nth:
  "i < length ls \<Longrightarrow>
     line_boundaries_from u ls ! (2 * i) = (u + int (length (concat (take i ls))), True, Line)
   \<and> line_boundaries_from u ls ! Suc (2 * i) = (u + int (length (concat (take (Suc i) ls))), False, Line)"
proof (induction ls arbitrary: u i)
  case Nil
  then show ?case by simp
next
  case (Cons l ls)
  show ?case
  proof (cases i)
    case 0
    then show ?thesis by simp
  next
    case (Suc j)
    with Cons.prems have "j < length ls" by simp
    from Cons.IH [OF this, of "u + int (length l)"] Suc show ?thesis
      by (simp add: add.assoc)
  qed
qed

lemma line_boundaries_from_Line:
  "t \<in> set (line_boundaries_from u ls) \<Longrightarrow> snd (snd t) = Line"
  by (induction ls arbitrary: u) auto

lemma line_boundaries_from_lower:
  "t \<in> set (line_boundaries_from u ls) \<Longrightarrow> u \<le> fst t"
proof (induction ls arbitrary: u)
  case Nil
  then show ?case by simp
next
  case (Cons l ls)
  from Cons.prems consider "t = (u, True, Line)" | "t = (u + int (length l), False, Line)"
    | "t \<in> set (line_boundaries_from (u + int (length l)) ls)" by auto
  then show ?case
  proof cases
    case 3
    from Cons.IH [OF this] show ?thesis by simp
  qed simp_all
qed

lemma line_boundaries_from_key_lower:
  assumes "t \<in> set (line_boundaries_from u ls)"
  shows "(u, False, 0) \<le> nesting_order t"
proof -
  obtain x s p where t: "t = (x, s, p)" by (cases t)
  from assms have "u \<le> fst t" by (rule line_boundaries_from_lower)
  moreover from assms have "snd (snd t) = Line" by (rule line_boundaries_from_Line)
  ultimately show ?thesis using t by auto
qed

lemma line_boundaries_from_sorted:
  "[] \<notin> set ls \<Longrightarrow> sorted (map nesting_order (line_boundaries_from u ls))"
proof (induction ls arbitrary: u)
  case Nil
  then show ?case by simp
next
  case (Cons l ls)
  then have l: "0 < length l" and ls: "[] \<notin> set ls" by auto
  have a: "(u, True, 0::int) \<le> (u + int (length l), False, 0)" using l by simp
  have low2: "\<forall>t \<in> set (line_boundaries_from (u + int (length l)) ls).
      (u + int (length l), False, 0) \<le> nesting_order t"
    by (blast intro: line_boundaries_from_key_lower)
  have low1: "\<forall>t \<in> set (line_boundaries_from (u + int (length l)) ls).
      (u, True, 0) \<le> nesting_order t"
    using low2 a by (blast intro: order_trans)
  show ?case using Cons.IH [OF ls, of "u + int (length l)"] a low1 low2 by simp
qed

lemma line_boundaries_sorted: "sorted (map nesting_order (line_boundaries brk text))"
  by (simp add: line_boundaries_def splitlines_def line_boundaries_from_sorted splitlines_from_nonempty)

lemma line_boundaries_filter:
  "filter (\<lambda>t. snd (snd t) = Line) (line_boundaries brk text) = line_boundaries brk text"
  by (simp add: line_boundaries_def line_boundaries_from_Line)

text \<open>
  Claim C10.  Every boundary of \<^verbatim>\<open>line_boundaries\<close> carries the one \<^verbatim>\<open>Line\<close> object; open
  and close boundaries alternate, starting with an open; the close of a line and the open
  of the next line are at the same offset; and sorting the line boundaries together with
  any boundaries of other payloads by \<^verbatim>\<open>nesting_order\<close> leaves the line boundaries in the
  order they were emitted in, so that in the sorted stream the \<^verbatim>\<open>Line\<close> boundary before
  each \<^verbatim>\<open>Line\<close> close is the open of the same line.
\<close>

theorem line_marker_shared:
  "map (\<lambda>t. snd (snd t)) (line_boundaries brk text :: 'm payload tag list)
     = replicate (2 * length (splitlines brk text)) Line
   \<and> map (\<lambda>t. fst (snd t)) (line_boundaries brk text :: 'm payload tag list)
       = concat (replicate (length (splitlines brk text)) [True, False])
   \<and> (Suc i < length (splitlines brk text) \<longrightarrow>
        fst ((line_boundaries brk text :: 'm payload tag list) ! Suc (2 * i))
          = fst ((line_boundaries brk text :: 'm payload tag list) ! (2 * Suc i)))
   \<and> ((\<forall>t \<in> set tags. snd (snd t) \<noteq> Line) \<longrightarrow>
        filter (\<lambda>t. snd (snd t) = Line)
          (sort_key nesting_order (tags @ (line_boundaries brk text :: 'm payload tag list)))
          = line_boundaries brk text)"
proof -
  let ?lb = "line_boundaries brk text :: 'm payload tag list"
  have c: "Suc i < length (splitlines brk text) \<longrightarrow> fst (?lb ! Suc (2 * i)) = fst (?lb ! (2 * Suc i))"
  proof
    assume a: "Suc i < length (splitlines brk text)"
    then have b: "i < length (splitlines brk text)" by simp
    have "line_boundaries_from 0 (splitlines brk text) ! Suc (2 * i)
        = (0 + int (length (concat (take (Suc i) (splitlines brk text)))), False, Line :: 'm payload)"
      by (rule line_boundaries_from_nth [OF b, THEN conjunct2])
    moreover have "line_boundaries_from 0 (splitlines brk text) ! (2 * Suc i)
        = (0 + int (length (concat (take (Suc i) (splitlines brk text)))), True, Line :: 'm payload)"
      by (rule line_boundaries_from_nth [OF a, THEN conjunct1])
    ultimately show "fst (?lb ! Suc (2 * i)) = fst (?lb ! (2 * Suc i))"
      unfolding line_boundaries_def by simp
  qed
  have d: "(\<forall>t \<in> set tags. snd (snd t) \<noteq> Line) \<longrightarrow>
        filter (\<lambda>t. snd (snd t) = Line) (sort_key nesting_order (tags @ ?lb)) = ?lb"
  proof
    assume a: "\<forall>t \<in> set tags. snd (snd t) \<noteq> Line"
    then have "filter (\<lambda>t. snd (snd t) = Line) tags = []" by (simp add: filter_empty_conv)
    then have "filter (\<lambda>t. snd (snd t) = Line) (sort_key nesting_order (tags @ ?lb))
      = sort_key nesting_order ?lb"
      by (simp add: filter_sort line_boundaries_filter)
    also have "\<dots> = ?lb"
      by (rule sort_key_id_if_sorted) (rule line_boundaries_sorted)
    finally show "filter (\<lambda>t. snd (snd t) = Line) (sort_key nesting_order (tags @ ?lb)) = ?lb" .
  qed
  have e: "map (\<lambda>t. snd (snd t)) ?lb = replicate (2 * length (splitlines brk text)) Line"
    by (simp add: line_boundaries_def line_boundaries_from_payloads)
  have f: "map (\<lambda>t. fst (snd t)) ?lb = concat (replicate (length (splitlines brk text)) [True, False])"
    by (simp add: line_boundaries_def line_boundaries_from_starts)
  from c d e f show ?thesis by blast
qed

theorem line_marker_shared_witness:
  "Suc 0 < length (splitlines (\<lambda>_. False) [CHR ''a'', LF, CHR ''b'', LF])
   \<and> list_all (\<lambda>t. snd (snd t) \<noteq> Line) [(0, True, Region 0 ''k''), (3, False, Region 0 ''k'')]
   \<and> fst ((line_boundaries (\<lambda>_. False) [CHR ''a'', LF, CHR ''b'', LF] :: string payload tag list) ! 1) = 2
   \<and> fst ((line_boundaries (\<lambda>_. False) [CHR ''a'', LF, CHR ''b'', LF] :: string payload tag list) ! 2) = 2
   \<and> filter (\<lambda>t. snd (snd t) = Line)
        (sort_key nesting_order ([(0, True, Region 0 ''k''), (3, False, Region 0 ''k'')]
           @ line_boundaries (\<lambda>_. False) [CHR ''a'', LF, CHR ''b'', LF]))
      = [(0, True, Line), (2, False, Line), (2, True, Line), (4, False, Line)]"
  using line_marker_shared [of "\<lambda>_. False" "[CHR ''a'', LF, CHR ''b'', LF]" 0
      "[(0, True, Region 0 ''k''), (3, False, Region 0 ''k'')]"]
  by (simp add: line_boundaries_def splitlines_def)

section \<open>Slicing the file ids for the workers\<close>

lemma sliced_loop_slices:
  "a \<le> m \<Longrightarrow> m \<le> b \<Longrightarrow> 0 < s \<Longrightarrow>
     \<exists>rs. sliced_loop a b s m acc = Some (acc @ rs) \<and> slices_of s b m rs"
proof (induction "nat (b - m)" arbitrary: m acc rule: less_induct)
  case less
  show ?case
  proof (cases "m + s - 1 < b")
    case True
    then have mx: "min b (m + s - 1) = m + s - 1" by simp
    have "nat (b - (m + s)) < nat (b - m)" using True less.prems by simp
    moreover have "a \<le> m + s" "m + s \<le> b" using True less.prems by simp_all
    ultimately obtain rs where rs: "sliced_loop a b s (m + s) (acc @ [(m, m + s - 1)])
        = Some ((acc @ [(m, m + s - 1)]) @ rs)" and sl: "slices_of s b (m + s) rs"
      using less.hyps [of "m + s" "acc @ [(m, m + s - 1)]"] less.prems(3) by blast
    from sl obtain r rs' where rr: "rs = r # rs'" by (cases rs) auto
    have "sliced_loop a b s m acc = Some (acc @ (m, m + s - 1) # rs)"
      using rs True mx by (subst sliced_loop.simps) (simp add: Let_def)
    moreover have "slices_of s b m ((m, m + s - 1) # rs)"
      using sl True rr by simp
    ultimately show ?thesis by blast
  next
    case False
    then have mx: "min b (m + s - 1) = b" by simp
    have "b + 1 \<noteq> a" using less.prems by simp
    then have "sliced_loop a b s m acc = Some (acc @ [(m, b)])"
      using mx by (subst sliced_loop.simps) (simp add: Let_def)
    moreover have "slices_of s b m [(m, b)]" using False less.prems by simp
    ultimately show ?thesis by blast
  qed
qed

lemma slices_of_ends:
  "slices_of s b m rs \<Longrightarrow> rs \<noteq> [] \<and> fst (hd rs) = m \<and> snd (last rs) = b"
  by (induction s b m rs rule: slices_of.induct) auto

lemma slices_of_sizes:
  "slices_of s b m rs \<Longrightarrow> 0 < s \<Longrightarrow> \<forall>(lo, hi) \<in> set rs. lo \<le> hi \<and> hi - lo + 1 \<le> s"
  by (induction s b m rs rule: slices_of.induct) auto

lemma slices_of_lower:
  "slices_of s b m rs \<Longrightarrow> 0 < s \<Longrightarrow> \<forall>(lo, hi) \<in> set rs. m \<le> lo"
  by (induction s b m rs rule: slices_of.induct) auto

lemma slices_of_step:
  "slices_of s b m rs \<Longrightarrow> Suc i < length rs \<Longrightarrow>
     snd (rs ! i) - fst (rs ! i) + 1 = s \<and> fst (rs ! Suc i) = snd (rs ! i) + 1"
proof (induction s b m rs arbitrary: i rule: slices_of.induct)
  case (3 s b m lo hi r rs)
  show ?case
  proof (cases i)
    case 0
    with "3.prems" show ?thesis using slices_of_ends [of s b "hi + 1" "r # rs"] by simp
  next
    case (Suc j)
    with "3.prems" "3.IH" [of j] show ?thesis by simp
  qed
qed simp_all

lemma slices_of_union:
  "slices_of s b m rs \<Longrightarrow> 0 < s \<Longrightarrow>
     (\<exists>(lo, hi) \<in> set rs. lo \<le> x \<and> x \<le> hi) \<longleftrightarrow> (m \<le> x \<and> x \<le> b)"
proof (induction s b m rs rule: slices_of.induct)
  case (3 s b m lo hi r rs)
  then have ih: "(\<exists>(lo, hi) \<in> set (r # rs). lo \<le> x \<and> x \<le> hi) \<longleftrightarrow> (hi + 1 \<le> x \<and> x \<le> b)"
    by simp
  have "(\<exists>(lo', hi') \<in> set ((lo, hi) # r # rs). lo' \<le> x \<and> x \<le> hi')
      \<longleftrightarrow> (lo \<le> x \<and> x \<le> hi) \<or> (\<exists>(lo, hi) \<in> set (r # rs). lo \<le> x \<and> x \<le> hi)"
    by simp
  also have "\<dots> \<longleftrightarrow> (lo \<le> x \<and> x \<le> hi) \<or> (hi + 1 \<le> x \<and> x \<le> b)"
    using ih by simp
  also have "\<dots> \<longleftrightarrow> (m \<le> x \<and> x \<le> b)"
    using "3.prems" by auto
  finally show ?case .
qed auto

lemma slices_of_disjoint:
  "slices_of s b m rs \<Longrightarrow> 0 < s \<Longrightarrow> i < j \<Longrightarrow> j < length rs \<Longrightarrow> snd (rs ! i) < fst (rs ! j)"
proof (induction s b m rs arbitrary: i j rule: slices_of.induct)
  case (3 s b m lo hi r rs)
  from "3.prems" obtain j' where j: "j = Suc j'" by (cases j) auto
  show ?case
  proof (cases i)
    case 0
    have "(r # rs) ! j' \<in> set (r # rs)" using "3.prems" j by (intro nth_mem) simp
    moreover have "\<forall>(lo', hi') \<in> set (r # rs). hi + 1 \<le> lo'"
      using slices_of_lower [of s b "hi + 1" "r # rs"] "3.prems" by simp
    ultimately have "hi + 1 \<le> fst ((r # rs) ! j')" by (auto simp: case_prod_beta)
    then show ?thesis using 0 j by simp
  next
    case (Suc i')
    with "3.prems" j "3.IH" [of i' j'] show ?thesis by simp
  qed
qed simp_all

text \<open>
  Claim C9.  For \<^verbatim>\<open>max_id >= 1\<close> the generator \<^verbatim>\<open>_sliced_range_bounds(1, max_id, 500)\<close>
  ends, and the inclusive ranges it yields start at 1, end at \<^verbatim>\<open>max_id\<close>, each start
  where the one before ended plus one, hold at most 500 ids each and exactly 500 each but
  the last; so they cover exactly the ids from 1 to \<^verbatim>\<open>max_id\<close> and are pairwise disjoint.
  \<^verbatim>\<open>run_html_workers\<close> submits one task per range, in order.
\<close>

theorem sliced_range_bounds_partition:
  assumes "1 \<le> max_id"
  shows "\<exists>rs. sliced_range_bounds 1 max_id 500 = Some rs
    \<and> run_html_workers max_id = Some (map (\<lambda>(start, end). Build_html_for_file_ids start end) rs)
    \<and> rs \<noteq> [] \<and> fst (hd rs) = 1 \<and> snd (last rs) = max_id
    \<and> (\<forall>(lo, hi) \<in> set rs. lo \<le> hi \<and> hi - lo + 1 \<le> 500)
    \<and> (\<forall>i. Suc i < length rs \<longrightarrow>
          snd (rs ! i) - fst (rs ! i) + 1 = 500 \<and> fst (rs ! Suc i) = snd (rs ! i) + 1)
    \<and> (\<forall>x. (\<exists>(lo, hi) \<in> set rs. lo \<le> x \<and> x \<le> hi) \<longleftrightarrow> (1 \<le> x \<and> x \<le> max_id))
    \<and> (\<forall>i j. i < j \<and> j < length rs \<longrightarrow> snd (rs ! i) < fst (rs ! j))"
proof -
  from assms obtain rs where rs: "sliced_loop 1 max_id 500 1 [] = Some ([] @ rs)"
    and sl: "slices_of 500 max_id 1 rs"
    using sliced_loop_slices [of 1 1 max_id 500 "[]"] by auto
  have s: "(0::int) < 500" by simp
  have "sliced_range_bounds 1 max_id 500 = Some rs"
    using rs by (simp add: sliced_range_bounds_def)
  moreover from this have "run_html_workers max_id
      = Some (map (\<lambda>(start, end). Build_html_for_file_ids start end) rs)"
    by (simp add: run_html_workers_def)
  moreover note slices_of_ends [OF sl] slices_of_sizes [OF sl s]
  moreover have "\<forall>i. Suc i < length rs \<longrightarrow>
          snd (rs ! i) - fst (rs ! i) + 1 = 500 \<and> fst (rs ! Suc i) = snd (rs ! i) + 1"
    using slices_of_step [OF sl] by blast
  moreover have "\<forall>x. (\<exists>(lo, hi) \<in> set rs. lo \<le> x \<and> x \<le> hi) \<longleftrightarrow> (1 \<le> x \<and> x \<le> max_id)"
    using slices_of_union [OF sl s] by blast
  moreover have "\<forall>i j. i < j \<and> j < length rs \<longrightarrow> snd (rs ! i) < fst (rs ! j)"
    using slices_of_disjoint [OF sl s] by blast
  ultimately show ?thesis by blast
qed

theorem sliced_range_bounds_partition_witness:
  "(1::int) \<le> 1234
   \<and> sliced_range_bounds 1 1234 500 = Some [(1, 500), (501, 1000), (1001, 1234)]
   \<and> run_html_workers 1234 = Some [Build_html_for_file_ids 1 500, Build_html_for_file_ids 501 1000,
        Build_html_for_file_ids 1001 1234]"
  using sliced_range_bounds_partition [of 1234]
  by (simp add: sliced_range_bounds_def sliced_loop.simps Let_def run_html_workers_def)

section \<open>Ignore rules of \<^verbatim>\<open>index_files\<close>\<close>

lemma index_folder_files_origin:
  "(path, data) \<in> set (index_folder_files fm is_text pats paths root rel files) \<Longrightarrow>
     \<exists>f. (f, data) \<in> set files \<and> path = path_join rel f
       \<and> \<not> list_ex (\<lambda>e. fm f e) pats \<and> \<not> list_ex (\<lambda>e. fm (''/'' @ path_join rel f) e) paths"
proof (induction files)
  case Nil
  then show ?case by simp
next
  case (Cons fd files)
  obtain f0 d0 where fd: "fd = (f0, d0)" by (cases fd)
  show ?case
  proof (cases "(path, data) \<in> set (index_folder_files fm is_text pats paths root rel files)")
    case True
    from Cons.IH [OF this] show ?thesis by auto
  next
    case False
    with Cons.prems fd have "path = path_join rel f0 \<and> data = d0
        \<and> \<not> list_ex (\<lambda>e. fm f0 e) pats \<and> \<not> list_ex (\<lambda>e. fm (''/'' @ path_join rel f0) e) paths"
      by (auto simp: Let_def split: if_splits)
    with fd show ?thesis by auto
  qed
qed

lemma index_walk_origin:
  "(path, data) \<in> set (index_walk fm is_text pats paths root rel tree) \<Longrightarrow>
   list_all (\<lambda>d. \<not> list_ex (\<lambda>e. fm d e) pats) dirs0 \<Longrightarrow>
     \<exists>origin \<in> set (all_files dirs0 rel tree). unignored_origin fm pats paths path origin"
proof (induction fm is_text pats paths root rel tree arbitrary: dirs0 rule: index_walk.induct)
  case (1 fm is_text pats paths root rel files folders)
  let ?names = "sort (unignored_folders fm (map fst folders) rel pats paths)"
  from "1.prems"(1) have "(path, data) \<in> set (index_folder_files fm is_text pats paths root rel files)
      \<or> (\<exists>folder \<in> set ?names. (path, data) \<in> set (case map_of folders folder of None \<Rightarrow> []
            | Some t \<Rightarrow> index_walk fm is_text pats paths (path_join root folder)
                (path_join rel folder) t))"
    by auto
  then consider
      (here) "(path, data) \<in> set (index_folder_files fm is_text pats paths root rel files)"
    | (below) folder t where "folder \<in> set ?names" "map_of folders folder = Some t"
        "(path, data) \<in> set (index_walk fm is_text pats paths (path_join root folder)
            (path_join rel folder) t)"
  proof (elim disjE bexE)
    fix folder
    assume th: "\<And>folder t. folder \<in> set ?names \<Longrightarrow> map_of folders folder = Some t \<Longrightarrow>
        (path, data) \<in> set (index_walk fm is_text pats paths (path_join root folder)
            (path_join rel folder) t) \<Longrightarrow> thesis"
      and f: "folder \<in> set ?names"
      and m: "(path, data) \<in> set (case map_of folders folder of None \<Rightarrow> []
            | Some t \<Rightarrow> index_walk fm is_text pats paths (path_join root folder)
                (path_join rel folder) t)"
    show thesis
    proof (cases "map_of folders folder")
      case None
      with m show ?thesis by simp
    next
      case (Some t)
      with m th [OF f Some] show ?thesis by simp
    qed
  qed
  then show ?case
  proof cases
    case here
    from index_folder_files_origin [OF this] obtain f where
      f: "(f, data) \<in> set files" "path = path_join rel f" "\<not> list_ex (\<lambda>e. fm f e) pats"
         "\<not> list_ex (\<lambda>e. fm (''/'' @ path_join rel f) e) paths" by blast
    then have "(dirs0, f, path_join rel f) \<in> set (all_files dirs0 rel (Dir files folders))"
      by force
    moreover have "unignored_origin fm pats paths path (dirs0, f, path_join rel f)"
      using f "1.prems"(2) by (simp add: unignored_origin_def)
    ultimately show ?thesis by blast
  next
    case below
    from below(1) have ok: "\<not> list_ex (\<lambda>e. fm folder e) pats"
      by (simp add: unignored_folders_def)
    then have dirs: "list_all (\<lambda>d. \<not> list_ex (\<lambda>e. fm d e) pats) (dirs0 @ [folder])"
      using "1.prems"(2) by simp
    from "1.IH" [OF below(1) below(2) below(3) dirs] obtain origin where
      o: "origin \<in> set (all_files (dirs0 @ [folder]) (path_join rel folder) t)"
         "unignored_origin fm pats paths path origin" by blast
    from below(2) have "(folder, t) \<in> set folders" by (rule map_of_SomeD)
    with o(1) have "origin \<in> set (all_files dirs0 rel (Dir files folders))" by force
    with o(2) show ?thesis by blast
  qed
qed

lemma index_walk_not_descended:
  assumes "list_ex (\<lambda>e. fm folder e) pats"
  shows "index_walk fm is_text pats paths root rel (Dir files (fs1 @ (folder, t) # fs2))
       = index_walk fm is_text pats paths root rel (Dir files (fs1 @ (folder, t') # fs2))"
proof -
  let ?names = "sort (unignored_folders fm (map fst (fs1 @ (folder, t) # fs2)) rel pats paths)"
  have same: "map fst (fs1 @ (folder, t) # fs2) = map fst (fs1 @ (folder, t') # fs2)" by simp
  have "\<forall>n \<in> set ?names. map_of (fs1 @ (folder, t) # fs2) n = map_of (fs1 @ (folder, t') # fs2) n"
  proof
    fix n assume "n \<in> set ?names"
    then have "n \<noteq> folder" using assms by (auto simp: unignored_folders_def)
    then show "map_of (fs1 @ (folder, t) # fs2) n = map_of (fs1 @ (folder, t') # fs2) n"
      by (simp add: map_add_def map_of_append split: option.splits)
  qed
  then have "map (\<lambda>n. case map_of (fs1 @ (folder, t) # fs2) n of None \<Rightarrow> []
        | Some u \<Rightarrow> index_walk fm is_text pats paths (path_join root n) (path_join rel n) u) ?names
      = map (\<lambda>n. case map_of (fs1 @ (folder, t') # fs2) n of None \<Rightarrow> []
        | Some u \<Rightarrow> index_walk fm is_text pats paths (path_join root n) (path_join rel n) u) ?names"
    by (intro map_cong) simp_all
  then show ?thesis by (simp only: index_walk.simps same)
qed

text \<open>
  Claim C8.  Every row of the \<^verbatim>\<open>files\<close> table after \<^verbatim>\<open>index_files\<close> comes from a file of
  the tree whose bare name matches no glob of \<^verbatim>\<open>ignore_patterns\<close>, whose relative path
  prefixed with \<^verbatim>\<open>/\<close> matches no glob of \<^verbatim>\<open>ignore_paths\<close>, and none of whose enclosing
  folders (below the source folder) has a name matching a glob of \<^verbatim>\<open>ignore_patterns\<close>.
  A folder whose name matches such a glob is not descended: the tables do not depend on
  what the folder holds.  This holds for every matching function \<^verbatim>\<open>fnmatchcase\<close>.
\<close>

theorem index_files_ignores:
  "list_all (\<lambda>(i, path, ic). list_ex (unignored_origin fm pats paths path) (all_files [] [] tree))
      (files_table (index_files fm is_text icon pats paths source_folder tree))
   \<and> (list_ex (\<lambda>e. fm folder e) pats \<longrightarrow>
        index_files fm is_text icon pats paths source_folder (Dir files (fs1 @ (folder, t) # fs2))
          = index_files fm is_text icon pats paths source_folder (Dir files (fs1 @ (folder, t') # fs2)))"
proof -
  have a: "list_all (\<lambda>(i, path, ic). list_ex (unignored_origin fm pats paths path) (all_files [] [] tree))
      (files_table (index_files fm is_text icon pats paths source_folder tree))"
  proof -
    have "\<exists>origin \<in> set (all_files [] [] tree). unignored_origin fm pats paths path origin"
      if "(i, path, ic) \<in> set (files_table (index_files fm is_text icon pats paths source_folder tree))"
      for i path ic
    proof -
      from that obtain j d where "(j, (path, d))
          \<in> set (enumerate 0 (index_walk fm is_text pats paths source_folder [] tree))"
        by (auto simp: index_files_def Let_def)
      then have "j < length (index_walk fm is_text pats paths source_folder [] tree)"
        and "index_walk fm is_text pats paths source_folder [] tree ! j = (path, d)"
        by (auto simp: in_set_enumerate_eq)
      then have "(path, d) \<in> set (index_walk fm is_text pats paths source_folder [] tree)"
        using nth_mem [of j "index_walk fm is_text pats paths source_folder [] tree"] by simp
      from index_walk_origin [OF this, of "[]"] show ?thesis by simp
    qed
    then show ?thesis unfolding list_all_iff list_ex_iff by blast
  qed
  have b: "list_ex (\<lambda>e. fm folder e) pats \<longrightarrow>
        index_files fm is_text icon pats paths source_folder (Dir files (fs1 @ (folder, t) # fs2))
          = index_files fm is_text icon pats paths source_folder (Dir files (fs1 @ (folder, t') # fs2))"
    using index_walk_not_descended [of fm folder pats is_text paths source_folder "[]" files fs1 t fs2 t']
    by (simp add: index_files_def)
  from a b show ?thesis by blast
qed


theorem index_files_ignores_witness:
  "list_ex (\<lambda>e. ''x'' = e) [''x'']
   \<and> files_table (index_files (\<lambda>n e. n = e) (\<lambda>_ _. True) (\<lambda>_. ''i'') [''x''] [''/b/z''] ''/src''
        (Dir [(''x'', ''1''), (''y'', ''2'')]
           ([(''b'', Dir [(''z'', ''3''), (''w'', ''4'')] [])]
              @ (''x'', Dir [(''r'', ''5'')] []) # [(''a'', Dir [(''q'', ''6'')] [])])))
       = [(1, ''y'', ''i''), (2, ''a/q'', ''i''), (3, ''b/w'', ''i'')]
   \<and> index_files (\<lambda>n e. n = e) (\<lambda>_ _. True) (\<lambda>_. ''i'') [''x''] [''/b/z''] ''/src''
        (Dir [(''x'', ''1''), (''y'', ''2'')]
           ([(''b'', Dir [(''z'', ''3''), (''w'', ''4'')] [])]
              @ (''x'', Dir [(''r'', ''5'')] []) # [(''a'', Dir [(''q'', ''6'')] [])]))
     = index_files (\<lambda>n e. n = e) (\<lambda>_ _. True) (\<lambda>_. ''i'') [''x''] [''/b/z''] ''/src''
        (Dir [(''x'', ''1''), (''y'', ''2'')]
           ([(''b'', Dir [(''z'', ''3''), (''w'', ''4'')] [])]
              @ (''x'', Dir [] []) # [(''a'', Dir [(''q'', ''6'')] [])]))"
  using index_files_ignores [of "\<lambda>n e. n = e" "[''x'']" "[''/b/z'']"
      "Dir [(''x'', ''1''), (''y'', ''2'')]
           ([(''b'', Dir [(''z'', ''3''), (''w'', ''4'')] [])]
              @ (''x'', Dir [(''r'', ''5'')] []) # [(''a'', Dir [(''q'', ''6'')] [])])"
      "\<lambda>_ _. True" "\<lambda>_. ''i''" "''/src''" "''x''"
      "[(''x'', ''1''), (''y'', ''2'')]" "[(''b'', Dir [(''z'', ''3''), (''w'', ''4'')] [])]"
      "Dir [(''r'', ''5'')] []" "[(''a'', Dir [(''q'', ''6'')] [])]" "Dir [] []"]
  by (simp add: index_files_def unignored_folders_def path_join_def enumerate_eq_zip)

section \<open>Segments appended by \<^verbatim>\<open>html_lines\<close>\<close>

lemma html_lines_loop_concat:
  "concat (html_lines_loop dumps slicer up_to segments line_ends_at tags)
     = concat segments
       @ concat (map (\<lambda>(prev, tag). rendered_boundary dumps slicer prev tag)
           (zip (up_to # map fst tags) tags))"
proof (induction tags arbitrary: up_to segments line_ends_at)
  case Nil
  then show ?case by simp
next
  case (Cons tag tags)
  obtain point is_start payload where tag: "tag = (point, is_start, payload)" by (cases tag)
  show ?case
    unfolding tag html_lines_loop.simps Let_def
    by (simp add: Cons.IH rendered_boundary_def split: option.splits)
qed

lemma strip_decomposition:
  "\<exists>pre post. s = pre @ strip chars s @ post \<and> set pre \<subseteq> set chars \<and> set post \<subseteq> set chars
     \<and> (strip chars s = [] \<or> hd (strip chars s) \<notin> set chars \<and> last (strip chars s) \<notin> set chars)"
proof -
  let ?P = "\<lambda>c. c \<in> set chars"
  let ?d = "dropWhile ?P s"
  let ?pre = "takeWhile ?P s"
  let ?post = "rev (takeWhile ?P (rev ?d))"
  have st: "strip chars s = rev (dropWhile ?P (rev ?d))" by (simp add: strip_def)
  have "rev (dropWhile ?P (rev ?d)) @ rev (takeWhile ?P (rev ?d))
      = rev (takeWhile ?P (rev ?d) @ dropWhile ?P (rev ?d))"
    by (simp only: rev_append)
  also have "\<dots> = rev (rev ?d)" by (simp only: takeWhile_dropWhile_id)
  finally have d: "?d = strip chars s @ ?post" by (simp add: st)
  have "s = ?pre @ ?d" by simp
  with d have s: "s = ?pre @ strip chars s @ ?post" by simp
  have pre: "set ?pre \<subseteq> set chars" by (auto dest: set_takeWhileD)
  have post: "set ?post \<subseteq> set chars" by (auto dest: set_takeWhileD)
  have ends: "hd (strip chars s) \<notin> set chars \<and> last (strip chars s) \<notin> set chars"
    if ne: "strip chars s \<noteq> []"
  proof
    have "?d \<noteq> []"
    proof
      assume "?d = []"
      with d have "strip chars s @ ?post = []" by (simp only:)
      with ne show False by simp
    qed
    then have "\<not> ?P (hd ?d)" by (rule hd_dropWhile)
    moreover have "hd ?d = hd (strip chars s)" using d ne by (metis hd_append2)
    ultimately show "hd (strip chars s) \<notin> set chars" by simp
    from ne st have "dropWhile ?P (rev ?d) \<noteq> []" by simp
    then have "\<not> ?P (hd (dropWhile ?P (rev ?d)))" by (rule hd_dropWhile)
    moreover have "last (strip chars s) = hd (dropWhile ?P (rev ?d))"
      unfolding st using \<open>dropWhile ?P (rev ?d) \<noteq> []\<close> by (simp add: last_rev)
    ultimately show "last (strip chars s) \<notin> set chars" by simp
  qed
  from s pre post ends show ?thesis by blast
qed

text \<open>
  Claim C7, as the code has it.  For every boundary in turn \<^verbatim>\<open>html_lines\<close> appends the
  HTML-escaped slice from \<^verbatim>\<open>up_to\<close> to the boundary's offset, stripped of \<^verbatim>\<open>\r\<close> and \<^verbatim>\<open>\n\<close>
  at both ends, then the boundary's own opener or closer (nothing for a \<^verbatim>\<open>Line\<close>), and
  goes on with \<^verbatim>\<open>up_to\<close> set to that offset: the yielded lines, concatenated, are these
  contributions in order, the first slice starting at 0.  Stripping removes a run of
  \<^verbatim>\<open>\r\<close> and \<^verbatim>\<open>\n\<close> at the start of the slice and one at its end and nothing else.
\<close>

theorem html_lines_segments:
  "concat (html_lines dumps tags slicer)
     = concat (map (\<lambda>(up_to, tag). rendered_boundary dumps slicer up_to tag)
         (zip (0 # map fst tags) tags))
   \<and> (\<exists>pre post. slicer a b = pre @ strip [CR, LF] (slicer a b) @ post
        \<and> set pre \<subseteq> {CR, LF} \<and> set post \<subseteq> {CR, LF}
        \<and> (strip [CR, LF] (slicer a b) = []
           \<or> hd (strip [CR, LF] (slicer a b)) \<notin> {CR, LF} \<and> last (strip [CR, LF] (slicer a b)) \<notin> {CR, LF}))"
  using strip_decomposition [of "slicer a b" "[CR, LF]"]
  by (simp add: html_lines_def html_lines_loop_concat)

text \<open>
  Claim C7 as stated fails: the slice \<^verbatim>\<open>"\nab"\<close> has no trailing line terminator, so
  trimming trailing terminators only would keep all of it, but \<^verbatim>\<open>html_lines\<close> appends
  \<^verbatim>\<open>"ab"\<close>, without the \<^verbatim>\<open>\n\<close> at the start.
\<close>

theorem html_lines_strip_counterexample:
  "html_lines (\<lambda>m. m) [(3, True, Region 0 ''k'')] (py_slice [LF, CHR ''a'', CHR ''b''])
     = [''ab<span class='' @ [DQ] @ ''k'' @ [DQ] @ ''>'']
   \<and> cgi_escape False (rstrip [CR, LF] (py_slice [LF, CHR ''a'', CHR ''b''] 0 3)) = [LF, CHR ''a'', CHR ''b'']"
  by (simp add: html_lines_def py_slice_def strip_def rstrip_def cgi_escape_def escape_char_def)

section \<open>\<^verbatim>\<open>remove_overlapping_refs\<close> on the empty stream\<close>

text \<open>
  Claim C4 at the empty stream, which is sorted and holds no anchor: the loop body of
  \<^verbatim>\<open>remove_overlapping_refs\<close> never runs, \<^verbatim>\<open>i\<close> stays unbound and \<^verbatim>\<open>del tags[i + 1:]\<close>
  raises \<^verbatim>\<open>UnboundLocalError\<close>, where the claim has the (empty) stream kept as it is.
\<close>

theorem remove_overlapping_refs_empty:
  "remove_overlapping_refs ([] :: 'm payload tag list) = Inl UnboundLocalError"
  by (simp add: remove_overlapping_refs_def non_overlapping_refs_def compress_def)

subsection \<open>Streams that are not empty\<close>

lemma compress_Cons:
  "compress (x # xs) (s # sel) = (if s then x # compress xs sel else compress xs sel)"
  by (simp add: compress_def)

lemma non_overlapping_loop_keep_first:
  "proper opens (ref_boundaries tags) \<Longrightarrow> distinct opens \<Longrightarrow>
   set opens = blacklist \<union> set_option open_ref \<Longrightarrow> (\<forall>q. open_ref = Some q \<longrightarrow> q \<notin> blacklist) \<Longrightarrow>
     \<exists>sel. non_overlapping_loop blacklist open_ref tags = Inr sel \<and> length sel = length tags
       \<and> compress tags sel = keep_first open_ref tags"
proof (induction tags arbitrary: opens blacklist open_ref)
  case Nil
  then show ?case by (simp add: compress_def)
next
  case (Cons x tags)
  obtain pt st p where x: "x = (pt, st, p)" by (cases x)
  show ?case
  proof (cases "is_Ref p")
    case False
    with Cons.prems(1) x have "proper opens (ref_boundaries tags)" by (simp add: ref_boundaries_def)
    from Cons.IH [OF this Cons.prems(2,3,4)] obtain sel where
      "non_overlapping_loop blacklist open_ref tags = Inr sel" "length sel = length tags"
      "compress tags sel = keep_first open_ref tags" by blast
    then show ?thesis using x False by (simp add: yield_def compress_Cons)
  next
    case ref: True
    show ?thesis
    proof (cases st)
      case True
      with Cons.prems(1) x ref have fresh: "p \<notin> set opens"
        and pr: "proper (p # opens) (ref_boundaries tags)" by (simp_all add: ref_boundaries_def)
      from fresh Cons.prems(3) have nb: "p \<notin> blacklist" and no: "open_ref \<noteq> Some p" by auto
      have d: "distinct (p # opens)" using fresh Cons.prems(2) by simp
      show ?thesis
      proof (cases open_ref)
        case None
        have s: "set (p # opens) = blacklist \<union> set_option (Some p)"
          using Cons.prems(3) None by auto
        have n: "\<forall>q. Some p = Some q \<longrightarrow> q \<notin> blacklist" using nb by simp
        from Cons.IH [OF pr d s n] obtain sel where
          "non_overlapping_loop blacklist (Some p) tags = Inr sel" "length sel = length tags"
          "compress tags sel = keep_first (Some p) tags" by blast
        then show ?thesis using x ref True None nb by (simp add: yield_def compress_Cons)
      next
        case (Some q)
        have s: "set (p # opens) = insert p blacklist \<union> set_option open_ref"
          using Cons.prems(3) by auto
        have n: "\<forall>r. open_ref = Some r \<longrightarrow> r \<notin> insert p blacklist"
          using Cons.prems(4) no by auto
        from Cons.IH [OF pr d s n] obtain sel where
          "non_overlapping_loop (insert p blacklist) open_ref tags = Inr sel"
          "length sel = length tags" "compress tags sel = keep_first open_ref tags" by blast
        then show ?thesis using x ref True Some nb no by (simp add: yield_def compress_Cons)
      qed
    next
      case False
      with Cons.prems(1) x ref have mem: "p \<in> set opens"
        and pr: "proper (remove1 p opens) (ref_boundaries tags)"
        by (simp_all add: ref_boundaries_def)
      have d: "distinct (remove1 p opens)" using Cons.prems(2) by simp
      have sr: "set (remove1 p opens) = set opens - {p}" using Cons.prems(2) by simp
      show ?thesis
      proof (cases "p \<in> blacklist")
        case True
        then have no: "open_ref \<noteq> Some p" using Cons.prems(4) by auto
        have s: "set (remove1 p opens) = (blacklist - {p}) \<union> set_option open_ref"
          using sr Cons.prems(3) no by (cases open_ref) auto
        have n: "\<forall>q. open_ref = Some q \<longrightarrow> q \<notin> blacklist - {p}" using Cons.prems(4) by auto
        from Cons.IH [OF pr d s n] obtain sel where
          "non_overlapping_loop (blacklist - {p}) open_ref tags = Inr sel"
          "length sel = length tags" "compress tags sel = keep_first open_ref tags" by blast
        then show ?thesis using x ref False True no by (simp add: yield_def compress_Cons)
      next
        case nb: False
        with mem Cons.prems(3) have o: "open_ref = Some p" by (cases open_ref) auto
        have s: "set (remove1 p opens) = blacklist \<union> set_option None"
          using sr Cons.prems(3) o nb by auto
        have n: "\<forall>q. (None :: 'a payload option) = Some q \<longrightarrow> q \<notin> blacklist" by simp
        from Cons.IH [OF pr d s n] obtain sel where
          "non_overlapping_loop blacklist None tags = Inr sel"
          "length sel = length tags" "compress tags sel = keep_first None tags" by blast
        then show ?thesis using x ref False nb o by (simp add: yield_def compress_Cons)
      qed
    qed
  qed
qed

lemma keep_first_others:
  "filter (\<lambda>t. \<not> is_Ref (snd (snd t))) (keep_first kept_open tags)
     = filter (\<lambda>t. \<not> is_Ref (snd (snd t))) tags"
  by (induction kept_open tags rule: keep_first.induct) auto

lemma keep_first_flat:
  "proper opens (ref_boundaries tags) \<Longrightarrow> distinct opens \<Longrightarrow> set_option kept_open \<subseteq> set opens \<Longrightarrow>
     flat_refs kept_open (keep_first kept_open tags)"
proof (induction tags arbitrary: opens kept_open)
  case Nil
  then show ?case by (cases kept_open) (auto simp: ref_boundaries_def)
next
  case (Cons x tags)
  obtain pt st p where x: "x = (pt, st, p)" by (cases x)
  show ?case
  proof (cases "is_Ref p")
    case False
    with Cons.prems(1) x have "proper opens (ref_boundaries tags)" by (simp add: ref_boundaries_def)
    from Cons.IH [OF this Cons.prems(2,3)] show ?thesis using x False by simp
  next
    case ref: True
    show ?thesis
    proof (cases st)
      case True
      with Cons.prems(1) x ref have fresh: "p \<notin> set opens"
        and pr: "proper (p # opens) (ref_boundaries tags)" by (simp_all add: ref_boundaries_def)
      have d: "distinct (p # opens)" using fresh Cons.prems(2) by simp
      show ?thesis
      proof (cases kept_open)
        case None
        have "set_option (Some p) \<subseteq> set (p # opens)" by simp
        from Cons.IH [OF pr d this] show ?thesis using x ref True None by simp
      next
        case (Some q)
        have "set_option kept_open \<subseteq> set (p # opens)" using Cons.prems(3) by auto
        from Cons.IH [OF pr d this] show ?thesis using x ref True Some by simp
      qed
    next
      case False
      with Cons.prems(1) x ref have mem: "p \<in> set opens"
        and pr: "proper (remove1 p opens) (ref_boundaries tags)"
        by (simp_all add: ref_boundaries_def)
      have d: "distinct (remove1 p opens)" using Cons.prems(2) by simp
      have sr: "set (remove1 p opens) = set opens - {p}" using Cons.prems(2) by simp
      show ?thesis
      proof (cases "kept_open = Some p")
        case True
        have "set_option None \<subseteq> set (remove1 p opens)" by simp
        from Cons.IH [OF pr d this] show ?thesis using x ref False True by simp
      next
        case ne: False
        then have "set_option kept_open \<subseteq> set (remove1 p opens)"
          using Cons.prems(3) sr by (cases kept_open) auto
        from Cons.IH [OF pr d this] show ?thesis using x ref False ne by simp
      qed
    qed
  qed
qed

lemma keep_first_nonempty:
  "tags \<noteq> [] \<Longrightarrow> proper [] (ref_boundaries tags) \<Longrightarrow> keep_first None tags \<noteq> []"
proof (cases tags)
  case Nil
  assume "tags \<noteq> []"
  with Nil show ?thesis by simp
next
  case (Cons x xs)
  assume pr: "proper [] (ref_boundaries tags)"
  obtain pt st p where x: "x = (pt, st, p)" by (cases x)
  show ?thesis
  proof (cases "is_Ref p")
    case False
    with Cons x show ?thesis by simp
  next
    case True
    with pr Cons x have st by (cases st) (simp_all add: ref_boundaries_def)
    with Cons x True show ?thesis by simp
  qed
qed

text \<open>
  On every other stream in which the boundaries of each anchor alternate, open first,
  \<^verbatim>\<open>remove_overlapping_refs\<close> raises nothing and leaves the stream filtered as specified:
  the boundaries of lines and regions are all kept, in order, and the anchors kept do not
  overlap.
\<close>

lemma remove_overlapping_refs_nonempty:
  assumes "tags \<noteq> []" and "proper [] (ref_boundaries tags)"
  shows "remove_overlapping_refs tags = Inr (keep_first None tags)
    \<and> filter (\<lambda>t. \<not> is_Ref (snd (snd t))) (keep_first None tags)
        = filter (\<lambda>t. \<not> is_Ref (snd (snd t))) tags
    \<and> flat_refs None (keep_first None tags)"
proof -
  have "set [] = {} \<union> set_option (None :: 'a payload option)" by simp
  from non_overlapping_loop_keep_first [OF assms(2) _ this] obtain sel where
    sel: "non_overlapping_loop {} None tags = Inr sel" "compress tags sel = keep_first None tags"
    by auto
  have "remove_overlapping_refs tags = Inr (keep_first None tags)"
    using sel keep_first_nonempty [OF assms]
    by (simp add: remove_overlapping_refs_def non_overlapping_refs_def)
  moreover have "flat_refs None (keep_first None tags)"
    using keep_first_flat [OF assms(2), of None] by simp
  ultimately show ?thesis using keep_first_others [of None tags] by simp
qed

section \<open>\<^verbatim>\<open>build_lines\<close>: lines yielded\<close>

text \<open>
  Claim C2 at the two-line text \<^verbatim>\<open>"ab\ncdef\n"\<close> with the one region \<^verbatim>\<open>[0, 5)\<close> of class
  \<^verbatim>\<open>k\<close>: \<^verbatim>\<open>build_lines\<close> yields three strings, the second source line being cut where the
  region ends.  At \<^verbatim>\<open>"ab\ncd\n"\<close> with the same region it yields a third, empty string.
  At the empty text without htmlifiers it raises \<^verbatim>\<open>UnboundLocalError\<close>.
\<close>

theorem build_lines_splits_line:
  "splitlines (\<lambda>_. False) (''ab'' @ [LF] @ ''cdef'' @ [LF]) = [''ab'' @ [LF], ''cdef'' @ [LF]]
   \<and> build_lines (\<lambda>_. False) (\<lambda>s. s) (\<lambda>m. m) (''ab'' @ [LF] @ ''cdef'' @ [LF])
       [\<lparr>regions = [(Some 0, Some 5, ''k'')], refs = []\<rparr>]
     = Inr [''<span class='' @ [DQ] @ ''k'' @ [DQ] @ ''>ab</span>'',
            ''<span class='' @ [DQ] @ ''k'' @ [DQ] @ ''>cd</span>'',
            ''ef'']
   \<and> splitlines (\<lambda>_. False) (''ab'' @ [LF] @ ''cd'' @ [LF]) = [''ab'' @ [LF], ''cd'' @ [LF]]
   \<and> build_lines (\<lambda>_. False) (\<lambda>s. s) (\<lambda>m. m) (''ab'' @ [LF] @ ''cd'' @ [LF])
       [\<lparr>regions = [(Some 0, Some 5, ''k'')], refs = []\<rparr>]
     = Inr [''<span class='' @ [DQ] @ ''k'' @ [DQ] @ ''>ab</span>'',
            ''<span class='' @ [DQ] @ ''k'' @ [DQ] @ ''>cd</span>'',
            '''']
   \<and> build_lines (\<lambda>_. False) (\<lambda>s. s) (\<lambda>m. m) [] ([] :: string htmlifier list)
     = Inl UnboundLocalError"
  by (simp add: build_lines_def tag_boundaries_def line_boundaries_def splitlines_def sort_key_def
      remove_overlapping_refs_def non_overlapping_refs_def compress_def yield_def yield_all_def
      balanced_tags_def balanced_tags_with_empties_def without_empty_tags_def
      html_lines_def py_slice_def strip_def cgi_escape_def escape_char_def Let_def)

section \<open>\<^verbatim>\<open>balanced_tags\<close> yields a balanced stream\<close>

lemma run_append:
  "run z S (xs @ ys) = Option.bind (run z S xs) (\<lambda>S'. run z S' ys)"
proof (induction xs arbitrary: S)
  case Nil
  show ?case by simp
next
  case (Cons x xs)
  obtain pt st p where x: "x = (pt, st, p)" by (cases x)
  show ?case unfolding x by (cases S) (auto simp: Cons.IH)
qed

lemma run_distinct:
  "run z S ts = Some S' \<Longrightarrow> distinct (map snd S) \<Longrightarrow> distinct (map snd S')"
proof (induction ts arbitrary: S)
  case Nil
  then show ?case by simp
next
  case (Cons x xs)
  obtain pt st p where x: "x = (pt, st, p)" by (cases x)
  show ?case
  proof (cases st)
    case True
    with Cons.prems x have "p \<notin> snd ` set S" and "run z ((pt, p) # S) xs = Some S'"
      by (auto split: if_splits)
    with Cons.prems(2) Cons.IH [of "(pt, p) # S"] show ?thesis by simp
  next
    case False
    with Cons.prems x obtain a S1 where "S = (a, p) # S1" "run z S1 xs = Some S'"
      by (cases S) (auto split: if_splits)
    with Cons.prems(2) Cons.IH [of S1] show ?thesis by simp
  qed
qed

lemma run_sorted:
  "run z S ts = Some S' \<Longrightarrow> sorted (map fst ts) \<Longrightarrow>
   (\<forall>a \<in> fst ` set S. \<forall>t \<in> set ts. a \<le> fst t) \<Longrightarrow> sorted (map fst (rev S)) \<Longrightarrow>
     sorted (map fst (rev S'))"
proof (induction ts arbitrary: S)
  case Nil
  then show ?case by simp
next
  case (Cons x xs)
  obtain pt st p where x: "x = (pt, st, p)" by (cases x)
  from Cons.prems(2) x have sx: "sorted (map fst xs)" and le: "\<forall>t \<in> set xs. pt \<le> fst t"
    by auto
  show ?case
  proof (cases st)
    case True
    with Cons.prems x have r: "run z ((pt, p) # S) xs = Some S'"
      by (auto split: if_splits)
    have "sorted (map fst (rev ((pt, p) # S)))"
      using Cons.prems(3,4) x by (auto simp: sorted_append)
    moreover have "\<forall>a \<in> fst ` set ((pt, p) # S). \<forall>t \<in> set xs. a \<le> fst t"
      using Cons.prems(3) le by auto
    ultimately show ?thesis using Cons.IH [OF r sx] by blast
  next
    case False
    with Cons.prems x obtain a S1 where S: "S = (a, p) # S1" and r: "run z S1 xs = Some S'"
      by (cases S) (auto split: if_splits)
    have "sorted (map fst (rev S1))" using Cons.prems(4) S by (auto simp: sorted_append)
    moreover have "\<forall>a \<in> fst ` set S1. \<forall>t \<in> set xs. a \<le> fst t"
      using Cons.prems(3) S by auto
    ultimately show ?thesis using Cons.IH [OF r sx] by blast
  qed
qed

subsection \<open>First pass: \<^verbatim>\<open>balanced_tags_with_empties\<close>\<close>

lemma close_intermediates_split:
  "p \<notin> set mid \<Longrightarrow>
     close_intermediates pt p (mid @ p # rest) closes
       = Inr (map (\<lambda>q. (pt, False, q)) mid, p # rest, rev mid @ closes)"
  by (induction mid arbitrary: closes) auto

lemma reopen_eq:
  "reopen pt opens closes = (map (\<lambda>q. (pt, True, q)) closes, rev closes @ opens)"
  by (induction closes arbitrary: opens) auto

lemma run_closes:
  "run False (S1 @ S2) (map (\<lambda>q. (pt, False, q)) (map snd S1)) = Some S2"
  by (induction S1) auto

lemma run_opens:
  "distinct qs \<Longrightarrow> set qs \<inter> snd ` set S = {} \<Longrightarrow>
     run z S (map (\<lambda>q. (pt, True, q)) qs) = Some (rev (map (\<lambda>q. (pt, q)) qs) @ S)"
proof (induction qs arbitrary: S)
  case Nil
  show ?case by simp
next
  case (Cons q qs)
  from Cons.prems have "q \<notin> snd ` set S" and "distinct qs"
    and "set qs \<inter> snd ` set ((pt, q) # S) = {}" by auto
  with Cons.IH [of "(pt, q) # S"] show ?case by simp
qed

lemma sorted_map_const: "sorted (map (\<lambda>_. c :: int) xs)"
  by (induction xs) auto

lemma balance_loop_run:
  "proper opens tags \<Longrightarrow> distinct opens \<Longrightarrow> map snd S = opens \<Longrightarrow> sorted (map fst tags) \<Longrightarrow>
     \<exists>out. balance_loop opens [] tags = Inr out \<and> run False S out = Some []
       \<and> sorted (map fst out) \<and> fst ` set out \<subseteq> fst ` set tags"
proof (induction tags arbitrary: opens S)
  case Nil
  then show ?case by simp
next
  case (Cons x tags)
  obtain pt st p where x: "x = (pt, st, p)" by (cases x)
  from Cons.prems(4) x have st: "sorted (map fst tags)" and le: "\<forall>t \<in> set tags. pt \<le> fst t"
    by auto
  show ?case
  proof (cases st)
    case True
    with Cons.prems(1) x have fresh: "p \<notin> set opens" and pr: "proper (p # opens) tags" by auto
    have d: "distinct (p # opens)" using fresh Cons.prems(2) by simp
    have m: "map snd ((pt, p) # S) = p # opens" using Cons.prems(3) by simp
    from Cons.IH [OF pr d m st] obtain out where out: "balance_loop (p # opens) [] tags = Inr out"
      "run False ((pt, p) # S) out = Some []" "sorted (map fst out)"
      "fst ` set out \<subseteq> fst ` set tags"
      by blast
    have le_out: "\<forall>t \<in> set out. pt \<le> fst t"
    proof
      fix t assume "t \<in> set out"
      then have "fst t \<in> fst ` set tags" using out(4) by auto
      then obtain u where "u \<in> set tags" "fst t = fst u" by auto
      with le show "pt \<le> fst t" by simp
    qed
    have "balance_loop opens [] (x # tags) = Inr ((pt, True, p) # out)"
      using out(1) True x by (simp add: yield_def)
    moreover have "run False S ((pt, True, p) # out) = Some []"
    proof -
      have "p \<notin> snd ` set S" using fresh Cons.prems(3) by (metis set_map)
      then show ?thesis using out(2) by simp
    qed
    moreover have "sorted (map fst ((pt, True, p) # out))"
      using out(3) le_out by auto
    moreover have "fst ` set ((pt, True, p) # out) \<subseteq> fst ` set (x # tags)"
      using out(4) x by auto
    ultimately show ?thesis by blast
  next
    case False
    with Cons.prems(1) x have mem: "p \<in> set opens" and pr: "proper (remove1 p opens) tags"
      by auto
    from mem obtain mid rest where opens: "opens = mid @ p # rest" and nm: "p \<notin> set mid"
      by (auto dest: split_list_first)
    have rm: "remove1 p opens = mid @ rest" using opens nm by (simp add: remove1_append)
    from Cons.prems(3) opens obtain S1 a S2 where S: "S = S1 @ (a, p) # S2"
      and S1: "map snd S1 = mid" and S2: "map snd S2 = rest"
      by (auto simp: map_eq_append_conv map_eq_Cons_conv)
    let ?S' = "map (\<lambda>q. (pt, q)) mid @ S2"
    have d': "distinct (mid @ rest)" using Cons.prems(2) opens by auto
    have m': "map snd ?S' = mid @ rest" using S2 by (simp add: o_def)
    have pr': "proper (mid @ rest) tags" using pr rm by simp
    from Cons.IH [OF pr' d' m' st] obtain out where
      out: "balance_loop (mid @ rest) [] tags = Inr out" "run False ?S' out = Some []"
        "sorted (map fst out)" "fst ` set out \<subseteq> fst ` set tags"
      by blast
    have le_out: "\<forall>t \<in> set out. pt \<le> fst t"
    proof
      fix t assume "t \<in> set out"
      then have "fst t \<in> fst ` set tags" using out(4) by auto
      then obtain u where "u \<in> set tags" "fst t = fst u" by auto
      with le show "pt \<le> fst t" by simp
    qed
    let ?o1 = "map (\<lambda>q. (pt, False, q)) mid"
    let ?o2 = "map (\<lambda>q. (pt, True, q)) (rev mid)"
    let ?emit = "?o1 @ [(pt, False, p)] @ ?o2"
    have "balance_loop opens [] (x # tags) = Inr (?emit @ out)"
      using out(1) False x opens nm
      by (simp add: close_intermediates_split reopen_eq yield_all_def)
    moreover have "run False S (?emit @ out) = Some []"
    proof -
      have 1: "run False S ?o1 = Some ((a, p) # S2)"
        using run_closes [of S1 "(a, p) # S2" pt] S S1 by simp
      have 2: "run False ((a, p) # S2) [(pt, False, p)] = Some S2" by simp
      have "distinct (rev mid)" using d' by simp
      moreover have "set (rev mid) \<inter> snd ` set S2 = {}"
        using d' S2 by (metis distinct_append set_map set_rev)
      ultimately have 3: "run False S2 ?o2 = Some ?S'"
        using run_opens [of "rev mid" S2 False pt] by (simp add: rev_map)
      show ?thesis using 1 2 3 out(2) by (simp add: run_append)
    qed
    moreover have "sorted (map fst (?emit @ out))"
      using out(3) le_out by (auto simp: sorted_append o_def sorted_map_const)
    moreover have "fst ` set (?emit @ out) \<subseteq> fst ` set (x # tags)"
      using out(4) x by auto
    ultimately show ?thesis by blast
  qed
qed

subsection \<open>Second pass: \<^verbatim>\<open>without_empty_tags\<close>\<close>

lemma without_empty_loop_run:
  "run True [] b = Some S \<Longrightarrow> sorted (map fst b) \<Longrightarrow>
   (\<forall>t \<in> set b. \<forall>u \<in> set ts. fst t \<le> fst u) \<Longrightarrow> sorted (map fst ts) \<Longrightarrow>
   run False S ts = Some [] \<Longrightarrow> (S = [] \<longrightarrow> b = []) \<Longrightarrow>
     \<exists>out. without_empty_loop (rev b) (int (length S)) ts = Inr out \<and> run True [] out = Some []
       \<and> sorted (map fst out) \<and> set out \<subseteq> set b \<union> set ts"
proof (induction ts arbitrary: b S)
  case Nil
  then have "S = []" by simp
  with Nil.prems(6) show ?case by simp
next
  case (Cons x ts)
  obtain pt st p where x: "x = (pt, st, p)" by (cases x)
  from Cons.prems(4) x have sx: "sorted (map fst ts)" and le: "\<forall>u \<in> set ts. pt \<le> fst u"
    by auto
  from Cons.prems(3) x have bpt: "\<forall>t \<in> set b. fst t \<le> pt" by auto
  show ?case
  proof (cases st)
    case True
    with Cons.prems(5) x have fresh: "p \<notin> snd ` set S"
      and r: "run False ((pt, p) # S) ts = Some []" by (auto split: if_splits)
    let ?b = "b @ [x]"
    have 1: "run True [] ?b = Some ((pt, p) # S)"
      using Cons.prems(1) fresh x True by (simp add: run_append)
    have 2: "sorted (map fst ?b)" using Cons.prems(2) bpt x by (auto simp: sorted_append)
    have 3: "\<forall>t \<in> set ?b. \<forall>u \<in> set ts. fst t \<le> fst u"
      using Cons.prems(3) le x by auto
    have 4: "(pt, p) # S = [] \<longrightarrow> ?b = []" by simp
    from Cons.IH [OF 1 2 3 sx r 4] obtain out where
      out: "without_empty_loop (rev ?b) (int (length ((pt, p) # S))) ts = Inr out"
        "run True [] out = Some []" "sorted (map fst out)" "set out \<subseteq> set ?b \<union> set ts"
      by blast
    have "without_empty_loop (rev b) (int (length S)) (x # ts)
        = without_empty_loop (rev ?b) (int (length ((pt, p) # S))) ts"
      using x True by (simp add: add.commute)
    with out show ?thesis by auto
  next
    case False
    with Cons.prems(5) x obtain a S' where S: "S = (a, p) # S'"
      and r: "run False S' ts = Some []"
      by (cases S) (auto split: if_splits)
    from Cons.prems(1) S have "b \<noteq> []" by auto
    then obtain b0 l where b: "b = b0 @ [l]" by (cases b rule: rev_cases) auto
    obtain tp tst tpay where l: "l = (tp, tst, tpay)" by (cases l)
    from Cons.prems(1) b obtain S0 where r0: "run True [] b0 = Some S0"
      and rl: "run True S0 [l] = Some S"
      by (auto simp: run_append bind_eq_Some_conv)
    from Cons.prems(2) b have sb0: "sorted (map fst b0)" by (simp add: sorted_append)
    from bpt b l have tp: "tp \<le> pt" by simp
    let ?buffer = "if tpay = p \<and> tp = pt then rev b0 else x # rev b"
    have K: "\<exists>bnew. ?buffer = rev bnew \<and> run True [] bnew = Some S'
        \<and> sorted (map fst bnew) \<and> set bnew \<subseteq> set b \<union> {x}"
    proof (cases tst)
      case True
      with rl l S have top: "a = tp" "p = tpay" "S' = S0" by (auto split: if_splits)
      show ?thesis
      proof (cases "tp = pt")
        case True
        have "?buffer = rev b0" using True top by simp
        moreover have "set b0 \<subseteq> set b \<union> {x}" using b by auto
        ultimately show ?thesis using r0 top sb0 by blast
      next
        case neq: False
        have "?buffer = rev (b @ [x])" using neq by simp
        moreover have "run True [] (b @ [x]) = Some S'"
          using Cons.prems(1) S x False top tp neq by (simp add: run_append)
        moreover have "sorted (map fst (b @ [x]))"
          using Cons.prems(2) bpt x by (auto simp: sorted_append)
        moreover have "set (b @ [x]) \<subseteq> set b \<union> {x}" by auto
        ultimately show ?thesis by blast
      qed
    next
      case cl: False
      with rl l obtain a0 where S0: "S0 = (a0, tpay) # S" and a0: "a0 < tp"
        by (cases S0) (auto split: if_splits)
      have "distinct (map snd S0)" using run_distinct [OF r0] by simp
      with S0 S have ne: "tpay \<noteq> p" by auto
      have "sorted (map fst (rev S0))" using run_sorted [OF r0 sb0] by simp
      with S0 S have "a \<le> a0" by (auto simp: sorted_append)
      with a0 tp have lt: "a < pt" by simp
      have "?buffer = rev (b @ [x])" using ne by simp
      moreover have "run True [] (b @ [x]) = Some S'"
        using Cons.prems(1) S x False lt by (simp add: run_append)
      moreover have "sorted (map fst (b @ [x]))"
        using Cons.prems(2) bpt x by (auto simp: sorted_append)
      moreover have "set (b @ [x]) \<subseteq> set b \<union> {x}" by auto
      ultimately show ?thesis by blast
    qed
    then obtain bnew where bn: "?buffer = rev bnew" "run True [] bnew = Some S'"
      "sorted (map fst bnew)" "set bnew \<subseteq> set b \<union> {x}" by blast
    have bn_le: "\<forall>t \<in> set bnew. fst t \<le> pt" using bn(4) bpt x by auto
    have step: "without_empty_loop (rev b) (int (length S)) (x # ts)
        = (if S' = [] then yield_all bnew (without_empty_loop [] 0 ts)
           else without_empty_loop (rev bnew) (int (length S')) ts)"
    proof -
      have "without_empty_loop (rev b) (int (length S)) (x # ts)
        = (if int (length S') = 0 then yield_all (rev ?buffer) (without_empty_loop [] 0 ts)
           else without_empty_loop ?buffer (int (length S')) ts)"
        unfolding x b l S using False by (simp add: Let_def)
      then show ?thesis unfolding bn(1) by simp
    qed
    show ?thesis
    proof (cases "S' = []")
      case True
      have "run True [] [] = Some ([] :: (int \<times> 'a) list)" by simp
      from Cons.IH [OF this _ _ sx] r True obtain rest where
        rest: "without_empty_loop (rev []) (int (length ([] :: (int \<times> 'a) list))) ts = Inr rest"
          "run True [] rest = Some []" "sorted (map fst rest)" "set rest \<subseteq> set [] \<union> set ts"
        by auto
      have "without_empty_loop (rev b) (int (length S)) (x # ts) = Inr (bnew @ rest)"
        using step True rest(1) by (simp add: yield_all_def)
      moreover have "run True [] (bnew @ rest) = Some []"
        using bn(2) True rest(2) by (simp add: run_append)
      moreover have "sorted (map fst (bnew @ rest))"
      proof -
        have "\<forall>t \<in> set bnew. \<forall>u \<in> set rest. fst t \<le> fst u"
        proof (intro ballI)
          fix t u assume t: "t \<in> set bnew" and u: "u \<in> set rest"
          from u rest(4) have "u \<in> set ts" by auto
          with le have "pt \<le> fst u" by simp
          moreover from t bn_le have "fst t \<le> pt" by simp
          ultimately show "fst t \<le> fst u" by simp
        qed
        then show ?thesis using bn(3) rest(3) by (auto simp: sorted_append)
      qed
      moreover have "set (bnew @ rest) \<subseteq> set b \<union> set (x # ts)"
        using bn(4) rest(4) by auto
      ultimately show ?thesis by blast
    next
      case ne: False
      have 3: "\<forall>t \<in> set bnew. \<forall>u \<in> set ts. fst t \<le> fst u"
      proof (intro ballI)
        fix t u assume t: "t \<in> set bnew" and u: "u \<in> set ts"
        from u le have "pt \<le> fst u" by simp
        moreover from t bn_le have "fst t \<le> pt" by simp
        ultimately show "fst t \<le> fst u" by simp
      qed
      have 4: "S' = [] \<longrightarrow> bnew = []" using ne by simp
      from Cons.IH [OF bn(2) bn(3) 3 sx r 4] obtain out where
        out: "without_empty_loop (rev bnew) (int (length S')) ts = Inr out"
          "run True [] out = Some []" "sorted (map fst out)" "set out \<subseteq> set bnew \<union> set ts"
        by blast
      have "without_empty_loop (rev b) (int (length S)) (x # ts) = Inr out"
        using step ne out(1) by simp
      moreover have "set out \<subseteq> set b \<union> set (x # ts)" using out(4) bn(4) by auto
      ultimately show ?thesis using out(2,3) by blast
    qed
  qed
qed

subsection \<open>What a strict reading gives\<close>

lemma run_counts:
  "run z S ts = Some S' \<Longrightarrow> length S + opens_in ts = length S' + closes_in ts"
proof (induction ts arbitrary: S)
  case Nil
  then show ?case by (simp add: opens_in_def closes_in_def)
next
  case (Cons x xs)
  obtain pt st p where x: "x = (pt, st, p)" by (cases x)
  show ?case
  proof (cases st)
    case True
    with Cons.prems x have "run z ((pt, p) # S) xs = Some S'" by (auto split: if_splits)
    from Cons.IH [OF this] show ?thesis using x True by (simp add: opens_in_def closes_in_def)
  next
    case False
    with Cons.prems x obtain a S1 where S: "S = (a, p) # S1" and r: "run z S1 xs = Some S'"
      by (cases S) (auto split: if_splits)
    from Cons.IH [OF r] show ?thesis using x False S by (simp add: opens_in_def closes_in_def)
  qed
qed

lemma run_prefix_balance:
  assumes "run z [] ts = Some S'"
  shows "closes_in (take n ts) \<le> opens_in (take n ts)"
proof -
  have "run z [] (take n ts @ drop n ts) = Some S'" using assms by simp
  then obtain S1 where "run z [] (take n ts) = Some S1"
    unfolding run_append by (auto simp: bind_eq_Some_conv)
  from run_counts [OF this] show ?thesis by simp
qed

lemma run_nested: "run True S ts = Some [] \<Longrightarrow> nested S ts"
proof (induction ts arbitrary: S)
  case Nil
  then show ?case by simp
next
  case (Cons x xs)
  obtain pt st p where x: "x = (pt, st, p)" by (cases x)
  show ?case
  proof (cases st)
    case True
    with Cons.prems x have "run True ((pt, p) # S) xs = Some []" by (auto split: if_splits)
    from Cons.IH [OF this] show ?thesis using x True by simp
  next
    case False
    with Cons.prems x obtain a S1 where S: "S = (a, p) # S1" and r: "run True S1 xs = Some []"
      and lt: "a < pt"
      by (cases S) (auto split: if_splits)
    from Cons.IH [OF r] show ?thesis using x False S lt by simp
  qed
qed

lemma run_close_later:
  "run True S ts = Some S' \<Longrightarrow> (x, p) \<in> set S \<Longrightarrow> distinct (map snd S) \<Longrightarrow>
   sorted (map fst ts) \<Longrightarrow> (y, False, p) \<in> set ts \<Longrightarrow> x < y"
proof (induction ts arbitrary: S)
  case Nil
  then show ?case by simp
next
  case (Cons t ts)
  obtain pt st q where t: "t = (pt, st, q)" by (cases t)
  from Cons.prems(4) t have sx: "sorted (map fst ts)" and le: "\<forall>u \<in> set ts. pt \<le> fst u"
    by auto
  show ?case
  proof (cases st)
    case True
    with Cons.prems(1) t have fresh: "q \<notin> snd ` set S"
      and r: "run True ((pt, q) # S) ts = Some S'" by (auto split: if_splits)
    have 1: "(x, p) \<in> set ((pt, q) # S)" using Cons.prems(2) by simp
    have 2: "distinct (map snd ((pt, q) # S))" using Cons.prems(3) fresh by simp
    have 3: "(y, False, p) \<in> set ts" using Cons.prems(5) t True by auto
    from Cons.IH [OF r 1 2 sx 3] show ?thesis .
  next
    case False
    with Cons.prems(1) t obtain a S1 where S: "S = (a, q) # S1"
      and r: "run True S1 ts = Some S'" and lt: "a < pt"
      by (cases S) (auto split: if_splits)
    have d1: "distinct (map snd S1)" using Cons.prems(3) S by simp
    show ?thesis
    proof (cases "(y, False, p) = t")
      case True
      with t have yp: "y = pt" "p = q" by simp_all
      have "(x, p) = (a, q)"
      proof (rule ccontr)
        assume "(x, p) \<noteq> (a, q)"
        with Cons.prems(2) S yp have "(x, p) \<in> set S1" by auto
        then have "p \<in> snd ` set S1" by force
        with Cons.prems(3) S yp show False by simp
      qed
      with lt yp show ?thesis by simp
    next
      case ne: False
      with Cons.prems(5) have 3: "(y, False, p) \<in> set ts" by simp
      show ?thesis
      proof (cases "(x, p) \<in> set S1")
        case True
        from Cons.IH [OF r True d1 sx 3] show ?thesis .
      next
        case False
        with Cons.prems(2) S have "x = a" by simp
        moreover from 3 le have "pt \<le> y" by force
        ultimately show ?thesis using lt by simp
      qed
    qed
  qed
qed

lemma run_no_equal_offsets:
  assumes "run True [] (pre @ (x, True, p) # post) = Some S'"
    and "sorted (map fst (pre @ (x, True, p) # post))"
    and "(y, False, p) \<in> set post"
  shows "x < y"
proof -
  from assms(1) obtain S1 where r1: "run True [] pre = Some S1"
    and r2: "run True S1 ((x, True, p) # post) = Some S'"
    unfolding run_append by (auto simp: bind_eq_Some_conv)
  from r2 have fresh: "p \<notin> snd ` set S1" and r3: "run True ((x, p) # S1) post = Some S'"
    by (auto split: if_splits)
  have "distinct (map snd S1)" using run_distinct [OF r1] by simp
  with fresh have d: "distinct (map snd ((x, p) # S1))" by simp
  have s: "sorted (map fst post)" using assms(2) by (simp add: sorted_append)
  from run_close_later [OF r3 _ d s assms(3)] show ?thesis by simp
qed

text \<open>
  Claim C1.  For every stream sorted by offset in which the boundaries of each payload
  object alternate, open first and close last, \<^verbatim>\<open>balanced_tags\<close> returns a stream (it
  raises nothing) in which every prefix has at least as many opens as closes, the whole
  has as many of each, every close boundary is for the payload of the most recent
  unmatched open, which is at another offset, and no open boundary is followed, anywhere
  later, by a close boundary of the same payload at the same offset.
\<close>

theorem balanced_tags_balanced:
  assumes "proper [] tags" and "sorted (map fst tags)"
  shows "\<exists>out. balanced_tags tags = Inr out
     \<and> (\<forall>n. closes_in (take n out) \<le> opens_in (take n out))
     \<and> closes_in out = opens_in out
     \<and> nested [] out
     \<and> (\<forall>pre post x y p. out = pre @ (x, True, p) # post \<and> (y, False, p) \<in> set post \<longrightarrow> x \<noteq> y)"
proof -
  from balance_loop_run [OF assms(1) _ _ assms(2), of "[]"] obtain mid where
    mid: "balance_loop [] [] tags = Inr mid" "run False [] mid = Some []" "sorted (map fst mid)"
    by auto
  have "run True [] [] = Some ([] :: (int \<times> 'a) list)" by simp
  from without_empty_loop_run [OF this _ _ mid(3) mid(2)] obtain out where
    out: "without_empty_loop (rev []) (int (length ([] :: (int \<times> 'a) list))) mid = Inr out"
      "run True [] out = Some []" "sorted (map fst out)"
    by auto
  have "balanced_tags tags = Inr out"
    using mid(1) out(1)
    by (simp add: balanced_tags_def balanced_tags_with_empties_def without_empty_tags_def)
  moreover have "\<forall>n. closes_in (take n out) \<le> opens_in (take n out)"
    using run_prefix_balance [OF out(2)] by blast
  moreover have "closes_in out = opens_in out"
    using run_counts [OF out(2)] by simp
  moreover have "nested [] out" using run_nested [OF out(2)] .
  moreover have "\<forall>pre post x y p. out = pre @ (x, True, p) # post \<and> (y, False, p) \<in> set post
      \<longrightarrow> x \<noteq> y"
  proof (intro allI impI)
    fix pre post x y p
    assume a: "out = pre @ (x, True, p) # post \<and> (y, False, p) \<in> set post"
    then have "run True [] (pre @ (x, True, p) # post) = Some []"
      and "sorted (map fst (pre @ (x, True, p) # post))"
      using out(2,3) by simp_all
    from run_no_equal_offsets [OF this] a have "x < y" by simp
    then show "x \<noteq> y" by simp
  qed
  ultimately show ?thesis by blast
qed

theorem balanced_tags_balanced_witness:
  "proper [] [(0::int, True, Line), (0, True, Region 0 ''k''), (3, False, Line), (3, True, Line), (5, False, Region 0 ''k''), (8, False, (Line :: string payload))]
   \<and> sorted (map fst [(0::int, True, Line), (0, True, Region 0 ''k''), (3, False, Line), (3, True, Line), (5, False, Region 0 ''k''), (8, False, (Line :: string payload))])
   \<and> balanced_tags [(0::int, True, Line), (0, True, Region 0 ''k''), (3, False, Line), (3, True, Line), (5, False, Region 0 ''k''), (8, False, (Line :: string payload))]
      = Inr [(0, True, Line), (0, True, Region 0 ''k''), (3, False, Region 0 ''k''), (3, False, Line),
             (3, True, Region 0 ''k''), (3, True, Line),
             (5, False, Line), (5, False, Region 0 ''k''), (5, True, Line), (8, False, Line)]
   \<and> nested [] [(0::int, True, Line), (0, True, Region 0 ''k''), (3, False, Region 0 ''k''),
             (3, False, Line), (3, True, Region 0 ''k''), (3, True, Line),
             (5, False, Line), (5, False, Region 0 ''k''), (5, True, Line),
             (8, False, (Line :: string payload))]"
proof -
  have p: "proper [] [(0::int, True, Line), (0, True, Region 0 ''k''), (3, False, Line), (3, True, Line), (5, False, Region 0 ''k''), (8, False, (Line :: string payload))]"
    by simp
  have s: "sorted (map fst [(0::int, True, Line), (0, True, Region 0 ''k''), (3, False, Line), (3, True, Line), (5, False, Region 0 ''k''), (8, False, (Line :: string payload))])"
    by simp
  have e: "balanced_tags [(0::int, True, Line), (0, True, Region 0 ''k''), (3, False, Line), (3, True, Line), (5, False, Region 0 ''k''), (8, False, (Line :: string payload))]
      = Inr [(0, True, Line), (0, True, Region 0 ''k''), (3, False, Region 0 ''k''), (3, False, Line),
             (3, True, Region 0 ''k''), (3, True, Line),
             (5, False, Line), (5, False, Region 0 ''k''), (5, True, Line), (8, False, Line)]"
    by (simp add: balanced_tags_def balanced_tags_with_empties_def without_empty_tags_def
        yield_def yield_all_def)
  from balanced_tags_balanced [OF p s] e p s show ?thesis by auto
qed


end
